theory Spec2Isabelle
  imports Main "HOL-Library.Sublist"
begin

section \<open>Exceptions\<close>

text \<open>
  The Python exceptions the recorder can raise. \<open>IndexError\<close> and
  \<open>ZeroDivisionError\<close> come from \<open>RingBuffer.append\<close>, \<open>KeyError\<close> from a dict
  lookup in the ingest loop, \<open>OverflowError\<close> and \<open>ValueError\<close> from the conversion
  of a value into a column of the array, \<open>AttributeError\<close> from a method call on \<open>None\<close>,
  \<open>OSError\<close> from the file system and the Parquet writer, \<open>CancelledError\<close> from
  asyncio.
\<close>

datatype exn =
  IndexError | ZeroDivisionError | OverflowError | ValueError | KeyError string |
  AttributeError | OSError | CancelledError

section \<open>RingBuffer (dhan\_incremental\_util.py, lines 24--43)\<close>

text \<open>
  The class has four attributes. \<open>size_rb\<close> is the attribute \<open>size\<close>. The numpy array
  \<open>buffer\<close> is a list of rows; the element type \<open>'a\<close> is the row type of the array.
  A row is a value of the array's dtype; what the store of a Python tuple into a slot
  makes of the tuple is \<open>DTYPE_setitem\<close>, with the ingest loop.
\<close>

record 'a RingBuffer =
  buffer :: "'a list"
  size_rb :: nat
  write_idx :: nat
  full :: bool

text \<open>
  \<open>__init__\<close>: \<open>np.empty(size, dtype)\<close> allocates \<open>size\<close> rows of arbitrary content;
  \<open>garbage i\<close> is what slot \<open>i\<close> happens to hold.
\<close>

definition RingBuffer_init :: "nat \<Rightarrow> (nat \<Rightarrow> 'a) \<Rightarrow> 'a RingBuffer" where
  "RingBuffer_init n garbage =
     \<lparr>buffer = map garbage [0..<n], size_rb = n, write_idx = 0, full = False\<rparr>"

text \<open>
  \<open>append\<close>: the store \<open>buffer[write_idx] = row\<close> raises IndexError out of range
  (\<open>write_idx\<close> is never negative), then \<open>% size\<close> raises ZeroDivisionError for size 0.
\<close>

definition append_rb :: "'a \<Rightarrow> 'a RingBuffer \<Rightarrow> exn + 'a RingBuffer" where
  "append_rb row rb =
     (if \<not> write_idx rb < length (buffer rb) then Inl IndexError
      else if size_rb rb = 0 then Inl ZeroDivisionError
      else
        let b = (buffer rb)[write_idx rb := row];
            w = (write_idx rb + 1) mod size_rb rb
        in Inr (rb\<lparr>buffer := b, write_idx := w,
                    full := (if w = 0 then True else full rb)\<rparr>))"

text \<open>
  \<open>linear_view\<close> (called \<open>snapshot\<close> in market\_recorder.py and data\_from\_dhan\_util.py):
  \<open>buffer[:write_idx]\<close> is \<open>take\<close>, \<open>buffer[write_idx:]\<close> is \<open>drop\<close>. Before the
  buffer is full the result is a numpy view of the array, not a copy; its callers read
  it before they give up control, so it is the list the array shows at the call.
\<close>

definition linear_view :: "'a RingBuffer \<Rightarrow> 'a list" where
  "linear_view rb =
     (if \<not> full rb then take (write_idx rb) (buffer rb)
      else drop (write_idx rb) (buffer rb) @ take (write_idx rb) (buffer rb))"

text \<open>A sequence of appends; the first exception ends it.\<close>

fun appends :: "'a list \<Rightarrow> 'a RingBuffer \<Rightarrow> exn + 'a RingBuffer" where
  "appends [] rb = Inr rb"
| "appends (x # xs) rb =
     (case append_rb x rb of Inl e \<Rightarrow> Inl e | Inr rb' \<Rightarrow> appends xs rb')"

text \<open>The shape every buffer of capacity \<open>C\<close> keeps.\<close>

definition rb_inv :: "nat \<Rightarrow> 'a RingBuffer \<Rightarrow> bool" where
  "rb_inv C rb \<longleftrightarrow> size_rb rb = C \<and> length (buffer rb) = C \<and> write_idx rb < C"

section \<open>Library functions the recorder calls\<close>

text \<open>Python's slice \<open>xs[i:j]\<close> for indices that are not negative.\<close>

definition py_slice :: "nat \<Rightarrow> nat \<Rightarrow> 'a list \<Rightarrow> 'a list" where
  "py_slice i j xs = take (j - i) (drop i xs)"

text \<open>
  \<open>datetime.now()\<close> yields a wall-clock reading; the recorder only formats it with
  \<open>%Y\<close>, \<open>%m\<close>, \<open>%d\<close>, \<open>%H\<close> and \<open>%M\<close>, all zero-padded decimal fields.
\<close>

record datetime =
  year :: nat
  month :: nat
  day :: nat
  hour :: nat
  minute :: nat

definition digit :: "nat \<Rightarrow> char" where
  "digit d = ''0123456789'' ! d"

fun dec :: "nat \<Rightarrow> string" where
  "dec n = (if n < 10 then [digit n] else dec (n div 10) @ [digit (n mod 10)])"

declare dec.simps [simp del]

definition zpad :: "nat \<Rightarrow> nat \<Rightarrow> string" where
  "zpad w n = replicate (w - length (dec n)) CHR ''0'' @ dec n"

text \<open>\<open>strftime("%Y-%m-%d")\<close>, \<open>strftime("%H_%M")\<close> and the format \<open>%Y%m%d_%H%M\<close>.\<close>

definition strftime_Y_m_d :: "datetime \<Rightarrow> string" where
  "strftime_Y_m_d t = zpad 4 (year t) @ ''-'' @ zpad 2 (month t) @ ''-'' @ zpad 2 (day t)"

definition strftime_H_M :: "datetime \<Rightarrow> string" where
  "strftime_H_M t = zpad 2 (hour t) @ ''_'' @ zpad 2 (minute t)"

definition strftime_YmdHM :: "datetime \<Rightarrow> string" where
  "strftime_YmdHM t =
     zpad 4 (year t) @ zpad 2 (month t) @ zpad 2 (day t) @ ''_'' @
     zpad 2 (hour t) @ zpad 2 (minute t)"

text \<open>
  \<open>os.path.join\<close> on POSIX: a component that starts with a slash replaces what came
  before it; otherwise it is added after a single separating slash.
\<close>

definition path_join2 :: "string \<Rightarrow> string \<Rightarrow> string" where
  "path_join2 path b =
     (if b \<noteq> [] \<and> hd b = CHR ''/'' then b
      else if path = [] \<or> last path = CHR ''/'' then path @ b
      else path @ ''/'' @ b)"

definition os_path_join :: "string \<Rightarrow> string list \<Rightarrow> string" where
  "os_path_join a ps = foldl path_join2 a ps"

section \<open>MarketRecorder (dhan\_incremental\_util.py, lines 48--165)\<close>

definition BASE_DIR :: string where
  "BASE_DIR = ''market_data''"

definition INSTRUMENT :: string where
  "INSTRUMENT = ''NIFTY_FUT''"

text \<open>
  What the recorder does to the file system, in call order: \<open>os.makedirs\<close>, opening a
  \<open>ParquetWriter\<close> on a path, \<open>write_table\<close> on the writer opened on a path, closing
  that writer, and the one-shot \<open>pq.write_table\<close> of the final flush. The rows handed to
  pandas and pyarrow are kept as the list of rows.
\<close>

datatype 'a io =
    Makedirs string
  | OpenWriter string
  | WriteTable string "'a list"
  | CloseWriter string
  | WriteFile string "'a list"

text \<open>
  The recorder's attributes \<open>ring\<close>, \<open>last_flush_idx\<close>, \<open>parquet_writer\<close> (a writer is
  known by the path it was opened on) and \<open>current_file_path\<close>, and the world around
  it: the file-system calls made so far and the number of \<open>time.time_ns()\<close> calls made
  so far. \<open>flush_interval\<close> only sets how long the flush task sleeps between ticks.
\<close>

record 'a MarketRecorder =
  ring :: "'a RingBuffer"
  last_flush_idx :: nat
  parquet_writer :: "string option"
  current_file_path :: "string option"
  fs_log :: "'a io list"
  clock :: nat

definition MarketRecorder_init :: "nat \<Rightarrow> (nat \<Rightarrow> 'a) \<Rightarrow> 'a MarketRecorder" where
  "MarketRecorder_init buffer_size garbage =
     \<lparr>ring = RingBuffer_init buffer_size garbage, last_flush_idx = 0,
      parquet_writer = None, current_file_path = None, fs_log = [], clock = 0\<rparr>"

text \<open>
  What one flush tick meets outside the program: the two \<open>datetime.now()\<close> readings
  (line 107 and line 108) and whether each file-system call raises.
\<close>

record env =
  now_today :: datetime
  now_slot :: datetime
  makedirs_fails :: bool
  close_fails :: bool
  open_fails :: bool
  write_fails :: bool

definition bucket_dir :: "env \<Rightarrow> string" where
  "bucket_dir e = os_path_join BASE_DIR [INSTRUMENT, strftime_Y_m_d (now_today e)]"

definition bucket_file :: "env \<Rightarrow> string" where
  "bucket_file e = os_path_join (bucket_dir e) [strftime_H_M (now_slot e) @ ''.parquet'']"

text \<open>
  Lines 117--126: when there is no writer or the path changed, close the open writer
  and open one on \<open>file_path\<close>. An exception leaves the attributes as they were.
\<close>

definition roll_writer :: "env \<Rightarrow> string \<Rightarrow> 'a MarketRecorder \<Rightarrow> exn option \<times> 'a MarketRecorder" where
  "roll_writer e file_path s =
     (if parquet_writer s = None \<or> current_file_path s \<noteq> Some file_path then
        (case parquet_writer s of
           Some w \<Rightarrow>
             if close_fails e then (Some OSError, s)
             else if open_fails e then
               (Some OSError, s\<lparr>fs_log := fs_log s @ [CloseWriter w]\<rparr>)
             else
               (None, s\<lparr>fs_log := fs_log s @ [CloseWriter w, OpenWriter file_path],
                        parquet_writer := Some file_path,
                        current_file_path := Some file_path\<rparr>)
         | None \<Rightarrow>
             if open_fails e then (Some OSError, s)
             else
               (None, s\<lparr>fs_log := fs_log s @ [OpenWriter file_path],
                        parquet_writer := Some file_path,
                        current_file_path := Some file_path\<rparr>))
      else (None, s))"

text \<open>
  Line 128: \<open>self.parquet_writer.write_table(table)\<close> writes to the file the writer
  was opened on. (After \<open>roll_writer\<close> has returned normally a writer is always set;
  without one the attribute access on \<open>None\<close> raises.)
\<close>

definition write_table :: "env \<Rightarrow> 'a list \<Rightarrow> 'a MarketRecorder \<Rightarrow> exn option \<times> 'a MarketRecorder" where
  "write_table e rows s =
     (case parquet_writer s of
        None \<Rightarrow> (Some AttributeError, s)
      | Some w \<Rightarrow>
          if write_fails e then (Some OSError, s)
          else (None, s\<lparr>fs_log := fs_log s @ [WriteTable w rows]\<rparr>))"

text \<open>
  One iteration of the loop of \<open>parquet_flush\<close> after the sleep (lines 96--129).
  \<open>None\<close> is a normal end of the iteration (also the \<open>continue\<close> of line 100);
  \<open>Some x\<close> is the exception that leaves the loop, with the state at the raise.
\<close>

definition parquet_flush :: "env \<Rightarrow> 'a MarketRecorder \<Rightarrow> exn option \<times> 'a MarketRecorder" where
  "parquet_flush e s =
     (let data = linear_view (ring s);
          total_rows = length data
      in if total_rows \<le> last_flush_idx s then (None, s)
         else
           let new_rows = py_slice (last_flush_idx s) total_rows data;
               s1 = s\<lparr>last_flush_idx := total_rows\<rparr>;
               dir_path = bucket_dir e
           in if makedirs_fails e then (Some OSError, s1)
              else
                let s2 = s1\<lparr>fs_log := fs_log s1 @ [Makedirs dir_path]\<rparr>;
                    file_path = bucket_file e
                in (case roll_writer e file_path s2 of
                      (Some x, s3) \<Rightarrow> (Some x, s3)
                    | (None, s3) \<Rightarrow> write_table e new_rows s3))"

text \<open>The rows a tick hands to the writer (lines 96--102); none when it continues.\<close>

definition new_rows :: "'a MarketRecorder \<Rightarrow> 'a list" where
  "new_rows s =
     (let data = linear_view (ring s);
          total_rows = length data
      in if total_rows \<le> last_flush_idx s then []
         else py_slice (last_flush_idx s) total_rows data)"

text \<open>
  The handler of \<open>run\<close> (lines 144--165) once both tasks have been cancelled: the final
  flush, the close of the writer, and the re-raise. It always ends in an exception.
\<close>

record stop_env =
  now_final :: datetime
  final_write_fails :: bool
  final_close_fails :: bool

definition final_path :: "stop_env \<Rightarrow> string" where
  "final_path e = INSTRUMENT @ ''_'' @ strftime_YmdHM (now_final e) @ ''_FINAL.parquet''"

definition close_and_raise :: "stop_env \<Rightarrow> 'a MarketRecorder \<Rightarrow> exn \<times> 'a MarketRecorder" where
  "close_and_raise e s =
     (case parquet_writer s of
        None \<Rightarrow> (CancelledError, s)
      | Some w \<Rightarrow>
          if final_close_fails e then (OSError, s)
          else (CancelledError, s\<lparr>fs_log := fs_log s @ [CloseWriter w]\<rparr>))"

definition final_flush :: "stop_env \<Rightarrow> 'a MarketRecorder \<Rightarrow> exn \<times> 'a MarketRecorder" where
  "final_flush e s =
     (let data = linear_view (ring s)
      in if last_flush_idx s < length data then
           if final_write_fails e then (OSError, s)
           else close_and_raise e
                  (s\<lparr>fs_log := fs_log s @
                       [WriteFile (final_path e) (drop (last_flush_idx s) data)]\<rparr>)
         else close_and_raise e s)"

section \<open>Runs of the recorder\<close>

text \<open>
  The two tasks run on one event loop and give up control only at their \<open>await\<close>s, so a
  run is a sequence of whole steps: an append by the ingest task, a tick of the flush
  task, a look at the view, or the shutdown handler.
\<close>

datatype 'a op = Append 'a | LinearView | Tick env | Shutdown stop_env

datatype 'a res = Done | Raised exn | View "'a list"

fun exec_op :: "'a op \<Rightarrow> 'a MarketRecorder \<Rightarrow> 'a res \<times> 'a MarketRecorder" where
  "exec_op (Append row) s =
     (case append_rb row (ring s) of
        Inl x \<Rightarrow> (Raised x, s)
      | Inr rb \<Rightarrow> (Done, s\<lparr>ring := rb\<rparr>))"
| "exec_op LinearView s = (View (linear_view (ring s)), s)"
| "exec_op (Tick e) s =
     (case parquet_flush e s of
        (None, s') \<Rightarrow> (Done, s')
      | (Some x, s') \<Rightarrow> (Raised x, s'))"
| "exec_op (Shutdown e) s = (case final_flush e s of (x, s') \<Rightarrow> (Raised x, s'))"

text \<open>The state after a sequence of operations, whatever each of them returned.\<close>

fun exec_ops :: "'a op list \<Rightarrow> 'a MarketRecorder \<Rightarrow> 'a MarketRecorder" where
  "exec_ops [] s = s"
| "exec_ops (c # cs) s = exec_ops cs (snd (exec_op c s))"

text \<open>
  The tasks under \<open>asyncio.gather\<close> (line 143): the first exception of a step ends the
  gathering and is what \<open>run\<close> sees.
\<close>

fun run_ops :: "'a op list \<Rightarrow> 'a MarketRecorder \<Rightarrow> exn option \<times> 'a MarketRecorder" where
  "run_ops [] s = (None, s)"
| "run_ops (c # cs) s =
     (case exec_op c s of
        (Raised x, s') \<Rightarrow> (Some x, s')
      | (_, s') \<Rightarrow> run_ops cs s')"

text \<open>
  \<open>run\<close> (lines 136--165), cancelled after the steps \<open>cs\<close>: an exception of a task is
  not a \<open>CancelledError\<close>, so it passes the handler by; a cancellation enters it.
\<close>

definition run :: "'a op list \<Rightarrow> stop_env \<Rightarrow> 'a MarketRecorder \<Rightarrow> exn \<times> 'a MarketRecorder" where
  "run cs e s =
     (case run_ops cs s of
        (Some x, s') \<Rightarrow> (x, s')
      | (None, s') \<Rightarrow> final_flush e s')"

text \<open>The rows appended by a sequence of operations, in order.\<close>

fun appended :: "'a op list \<Rightarrow> 'a list" where
  "appended [] = []"
| "appended (Append row # cs) = row # appended cs"
| "appended (_ # cs) = appended cs"

text \<open>The rows written so far, by the bucket writers and by the final flush, in order.\<close>

fun written :: "'a io list \<Rightarrow> 'a list" where
  "written [] = []"
| "written (WriteTable p rows # l) = rows @ written l"
| "written (WriteFile p rows # l) = rows @ written l"
| "written (_ # l) = written l"

section \<open>The ingest loop (dhan\_incremental\_util.py, lines 60--88)\<close>

text \<open>
  The feed object \<open>fd\<close> is not part of the recorder: \<open>fd.ws.recv()\<close> yields a raw
  payload (a sequence of byte values) and \<open>fd.process_data\<close> parses the head of a
  payload into a dict, or returns something falsy. The dict's keys that the loop reads
  may be missing; a missing key is \<open>None\<close> here and a \<open>KeyError\<close> when it is read.
  A price is any Python value (type \<open>'p\<close>), a quantity a Python integer.
\<close>

type_synonym bytes = "nat list"

datatype pyval = PyInt int | PyStr string

text \<open>\<open>str(v)\<close> for an integer or a string.\<close>

definition py_str :: "pyval \<Rightarrow> string" where
  "py_str v =
     (case v of
        PyStr s \<Rightarrow> s
      | PyInt i \<Rightarrow> (if i < 0 then ''-'' @ dec (nat (- i)) else dec (nat i)))"

record 'p level =
  price :: "'p option"
  quantity :: "int option"

record 'p update =
  u_type :: "string option"
  u_security_id :: "pyval option"
  u_depth :: "'p level list option"
  u_remaining_data :: "bytes option"

text \<open>The dict is falsy when it is empty.\<close>

definition falsy_update :: "'p update \<Rightarrow> bool" where
  "falsy_update u \<longleftrightarrow>
     u_type u = None \<and> u_security_id u = None \<and> u_depth u = None \<and>
     u_remaining_data u = None"

text \<open>
  A row of the ring: a value of \<open>DTYPE\<close> (lines 13--19), with the columns \<open>ts\<close>
  (int64), \<open>security_id\<close> (at most 20 characters), \<open>side\<close> (at most 3 characters),
  \<open>price\<close> (float64, type \<open>'f\<close>) and \<open>qty\<close> (int32).
\<close>

type_synonym 'f row = "int \<times> string \<times> string \<times> 'f \<times> int"

definition in_int64 :: "int \<Rightarrow> bool" where
  "in_int64 i \<longleftrightarrow> - (2 ^ 63) \<le> i \<and> i < 2 ^ 63"

definition in_int32 :: "int \<Rightarrow> bool" where
  "in_int32 i \<longleftrightarrow> - (2 ^ 31) \<le> i \<and> i < 2 ^ 31"

text \<open>
  The store \<open>self.buffer[self.write_idx] = row\<close> (line 32) of the Python tuple
  \<open>(ts, security_id, side, price, qty)\<close> into a slot of the array. numpy converts
  field by field, in the order of the columns, into the slot itself: an integer
  outside its column's range raises \<open>OverflowError\<close>, a string is cut to the width of
  its column, and the price goes through \<open>float64\<close>, numpy's conversion of a Python
  value to a double (it rounds a number that is no double and raises for a value
  that is no number). A field that raises leaves the fields before it in the slot.
\<close>

fun DTYPE_setitem ::
  "('p \<Rightarrow> exn + 'f) \<Rightarrow> int \<times> string \<times> string \<times> 'p \<times> int \<Rightarrow> 'f row \<Rightarrow>
   exn option \<times> 'f row" where
  "DTYPE_setitem float64 (ts, sid, side, p, q) (ts0, sid0, side0, p0, q0) =
     (if \<not> in_int64 ts then (Some OverflowError, (ts0, sid0, side0, p0, q0))
      else
        (case float64 p of
           Inl x \<Rightarrow> (Some x, (ts, take 20 sid, take 3 side, p0, q0))
         | Inr f \<Rightarrow>
             if \<not> in_int32 q then (Some OverflowError, (ts, take 20 sid, take 3 side, f, q0))
             else (None, (ts, take 20 sid, take 3 side, f, q))))"

text \<open>
  \<open>RingBuffer.append\<close> (lines 31--35) called with a Python tuple: the index is checked,
  the tuple is converted into the slot, and when that raised nothing the write index
  moves on as in \<open>append_rb\<close>.
\<close>

definition append_tuple ::
  "('p \<Rightarrow> exn + 'f) \<Rightarrow> int \<times> string \<times> string \<times> 'p \<times> int \<Rightarrow> 'f row RingBuffer \<Rightarrow>
   exn option \<times> 'f row RingBuffer" where
  "append_tuple float64 tup rb =
     (if \<not> write_idx rb < length (buffer rb) then (Some IndexError, rb)
      else
        (case DTYPE_setitem float64 tup (buffer rb ! write_idx rb) of
           (Some x, slot) \<Rightarrow> (Some x, rb\<lparr>buffer := (buffer rb)[write_idx rb := slot]\<rparr>)
         | (None, row) \<Rightarrow>
             (case append_rb row rb of
                Inl x \<Rightarrow> (Some x, rb)
              | Inr rb' \<Rightarrow> (None, rb'))))"

text \<open>
  Lines 77--84, the loop over the levels. \<open>time_ns k\<close> is what the \<open>k\<close>-th call of
  \<open>time.time_ns()\<close> returns. The tuple is built from left to right, so the clock is read
  before any key is looked up.
\<close>

fun append_levels ::
  "('p \<Rightarrow> exn + 'f) \<Rightarrow> (nat \<Rightarrow> int) \<Rightarrow> 'p update \<Rightarrow> 'p level list \<Rightarrow>
   'f row MarketRecorder \<Rightarrow> exn option \<times> 'f row MarketRecorder" where
  "append_levels float64 time_ns u [] s = (None, s)"
| "append_levels float64 time_ns u (lv # levels) s =
     (let ts = time_ns (clock s);
          s1 = s\<lparr>clock := clock s + 1\<rparr>
      in case u_security_id u of
           None \<Rightarrow> (Some (KeyError ''security_id''), s1)
         | Some sid \<Rightarrow>
             (case u_type u of
                None \<Rightarrow> (Some (KeyError ''type''), s1)
              | Some side \<Rightarrow>
                  (case price lv of
                     None \<Rightarrow> (Some (KeyError ''price''), s1)
                   | Some p \<Rightarrow>
                       (case quantity lv of
                          None \<Rightarrow> (Some (KeyError ''quantity''), s1)
                        | Some q \<Rightarrow>
                            (case append_tuple float64 (ts, py_str sid, side, p, q) (ring s1) of
                               (Some x, rb) \<Rightarrow> (Some x, s1\<lparr>ring := rb\<rparr>)
                             | (None, rb) \<Rightarrow>
                                 append_levels float64 time_ns u levels
                                   (s1\<lparr>ring := rb\<rparr>))))))"

text \<open>
  Lines 74--84, what is done with one parsed update: \<open>continue\<close> when its type is
  neither \<open>Bid\<close> nor \<open>Ask\<close>, the loop over its levels otherwise.
\<close>

definition process_update ::
  "('p \<Rightarrow> exn + 'f) \<Rightarrow> (nat \<Rightarrow> int) \<Rightarrow> 'p update \<Rightarrow> 'f row MarketRecorder \<Rightarrow>
   exn option \<times> 'f row MarketRecorder" where
  "process_update float64 time_ns u s =
     (case u_type u of
        None \<Rightarrow> (Some (KeyError ''type''), s)
      | Some t \<Rightarrow>
          if t \<notin> set [''Bid'', ''Ask''] then (None, s)
          else (case u_depth u of
                  None \<Rightarrow> (Some (KeyError ''depth''), s)
                | Some levels \<Rightarrow> append_levels float64 time_ns u levels s))"

text \<open>
  Lines 67--84, the loop \<open>while remaining\<close> over the chain of payloads of one message.
  Nothing bounds the chain, so the loop may run forever: \<open>None\<close> is a loop that does
  not end.
\<close>

partial_function (option) drain ::
  "(bytes \<Rightarrow> 'p update option) \<Rightarrow> ('p \<Rightarrow> exn + 'f) \<Rightarrow> (nat \<Rightarrow> int) \<Rightarrow> bytes option \<Rightarrow>
   'f row MarketRecorder \<Rightarrow> (exn option \<times> 'f row MarketRecorder) option" where
  "drain process_data float64 time_ns remaining s =
     (case remaining of
        None \<Rightarrow> Some (None, s)
      | Some raw \<Rightarrow>
          if raw = [] then Some (None, s)
          else
            (case process_data raw of
               None \<Rightarrow> Some (None, s)
             | Some u \<Rightarrow>
                 if falsy_update u then Some (None, s)
                 else
                   (case process_update float64 time_ns u s of
                      (Some x, s') \<Rightarrow> Some (Some x, s')
                    | (None, s') \<Rightarrow>
                        drain process_data float64 time_ns (u_remaining_data u) s')))"

section \<open>Predicates on states and logs\<close>

definition io_ok :: "env \<Rightarrow> bool" where
  "io_ok e \<longleftrightarrow> \<not> makedirs_fails e \<and> \<not> close_fails e \<and> \<not> open_fails e \<and> \<not> write_fails e"

text \<open>The two writer attributes are only ever assigned together.\<close>

definition writer_inv :: "'a MarketRecorder \<Rightarrow> bool" where
  "writer_inv s \<longleftrightarrow> parquet_writer s = current_file_path s"

text \<open>
  \<open>xs\<close> is the list of all rows appended so far. The view holds its last \<open>C\<close> rows and
  the flush cursor never exceeds the length of the view.
\<close>

definition ring_inv :: "nat \<Rightarrow> 'a list \<Rightarrow> 'a MarketRecorder \<Rightarrow> bool" where
  "ring_inv C xs s \<longleftrightarrow>
     rb_inv C (ring s) \<and> writer_inv s \<and>
     linear_view (ring s) = drop (length xs - C) xs \<and>
     last_flush_idx s \<le> length (linear_view (ring s))"

text \<open>
  Replaying the file-system calls against the writer that is open: a writer is opened
  only when none is open, written to and closed only while it is the open one.
  \<open>None\<close> is a log that breaks this; \<open>Some w\<close> is a log that keeps it and ends with
  \<open>w\<close> open (or with no writer open, for \<open>w = None\<close>).
\<close>

fun replay :: "string option \<Rightarrow> 'a io list \<Rightarrow> string option option" where
  "replay cur [] = Some cur"
| "replay cur (Makedirs d # l) = replay cur l"
| "replay cur (OpenWriter p # l) = (if cur = None then replay (Some p) l else None)"
| "replay cur (WriteTable p rows # l) = (if cur = Some p then replay cur l else None)"
| "replay cur (CloseWriter p # l) = (if cur = Some p then replay None l else None)"
| "replay cur (WriteFile p rows # l) = replay cur l"

text \<open>
  \<open>xs\<close> is the list of all rows appended so far. The rows of the view beyond the cursor
  are the last rows of \<open>xs\<close>; what has been written is a subsequence of the rows of
  \<open>xs\<close> before them: no row is written twice and none out of order.
\<close>

definition flushed_inv :: "'a list \<Rightarrow> 'a MarketRecorder \<Rightarrow> bool" where
  "flushed_inv xs s \<longleftrightarrow>
     subseq (written (fs_log s))
       (take (length xs - (length (linear_view (ring s)) - last_flush_idx s)) xs)"

section \<open>Example inputs\<close>

text \<open>A buffer allocated over zeroed memory, a wall-clock reading, and calls that succeed.\<close>

definition zeros :: "nat \<Rightarrow> nat" where
  "zeros i = 0"

definition at_time :: "nat \<Rightarrow> nat \<Rightarrow> datetime" where
  "at_time h m = \<lparr>year = 2024, month = 3, day = 7, hour = h, minute = m\<rparr>"

definition tick_at :: "nat \<Rightarrow> nat \<Rightarrow> env" where
  "tick_at h m =
     \<lparr>now_today = at_time h m, now_slot = at_time h m, makedirs_fails = False,
      close_fails = False, open_fails = False, write_fails = False\<rparr>"

definition failing_write_at :: "nat \<Rightarrow> nat \<Rightarrow> env" where
  "failing_write_at h m = (tick_at h m)\<lparr>write_fails := True\<rparr>"

definition stop_at :: "nat \<Rightarrow> nat \<Rightarrow> stop_env" where
  "stop_at h m =
     \<lparr>now_final = at_time h m, final_write_fails = False, final_close_fails = False\<rparr>"

text \<open>
  An update of two ask levels for instrument 53216, an update of another type, an
  update whose instrument id has 24 characters, and one whose quantity is \<open>2^31\<close>.
\<close>

definition ask_update :: "nat update" where
  "ask_update =
     \<lparr>u_type = Some ''Ask'', u_security_id = Some (PyInt 53216),
      u_depth = Some (map (\<lambda>(p, q). \<lparr>price = Some p, quantity = Some q\<rparr>) [(101, 7), (102, 9)]),
      u_remaining_data = None\<rparr>"

definition ticker_update :: "nat update" where
  "ticker_update =
     \<lparr>u_type = Some ''Ticker'', u_security_id = Some (PyInt 53216),
      u_depth = None, u_remaining_data = Some [2]\<rparr>"

definition long_id_update :: "nat update" where
  "long_id_update =
     \<lparr>u_type = Some ''Ask'', u_security_id = Some (PyStr ''NIFTY-FUT-2024-03-28-XYZ''),
      u_depth = Some [\<lparr>price = Some 101, quantity = Some 7\<rparr>],
      u_remaining_data = None\<rparr>"

definition big_quantity_update :: "nat update" where
  "big_quantity_update =
     \<lparr>u_type = Some ''Ask'', u_security_id = Some (PyInt 53216),
      u_depth = Some [\<lparr>price = Some 101, quantity = Some 2147483648\<rparr>],
      u_remaining_data = None\<rparr>"

text \<open>A feed whose payload \<open>[1, 2]\<close> holds the second update, then the first.\<close>

definition example_feed :: "bytes \<Rightarrow> nat update option" where
  "example_feed raw =
     (if raw = [1, 2] then Some ticker_update
      else if raw = [2] then Some ask_update
      else None)"

definition example_clock :: "nat \<Rightarrow> int" where
  "example_clock k = 1000 + int k"

text \<open>Prices that are whole numbers small enough to be doubles as they are.\<close>

definition whole_price :: "nat \<Rightarrow> exn + nat" where
  "whole_price p = Inr p"

definition blank_rows :: "nat \<Rightarrow> nat row" where
  "blank_rows i = (0, [], [], 0, 0)"

section \<open>Running the recorder on the example inputs\<close>

text \<open>The definitions unfolded to run the recorder on the example inputs.\<close>

lemmas run_defs =
  MarketRecorder_init_def RingBuffer_init_def append_rb_def linear_view_def
  parquet_flush_def roll_writer_def write_table_def final_flush_def close_and_raise_def
  new_rows_def py_slice_def run_def Let_def upt_rec zeros_def
  bucket_file_def bucket_dir_def final_path_def os_path_join_def path_join2_def
  tick_at_def failing_write_at_def stop_at_def at_time_def
  strftime_Y_m_d_def strftime_H_M_def strftime_YmdHM_def zpad_def dec.simps digit_def
  BASE_DIR_def INSTRUMENT_def

section \<open>Properties of the ring buffer\<close>

lemma rb_inv_init: "0 < C \<Longrightarrow> rb_inv C (RingBuffer_init C g)"
  by (simp add: rb_inv_def RingBuffer_init_def)

text \<open>A buffer of capacity 0 takes no row: the first store is out of range.\<close>

lemma append_rb_capacity_0: "append_rb x (RingBuffer_init 0 g) = Inl IndexError"
  by (simp add: append_rb_def RingBuffer_init_def)

lemma linear_view_init: "linear_view (RingBuffer_init C g) = []"
  by (simp add: linear_view_def RingBuffer_init_def)

lemma append_rb_ok:
  assumes "rb_inv C rb"
  shows "\<exists>rb'. append_rb x rb = Inr rb' \<and> rb_inv C rb' \<and> (full rb \<longrightarrow> full rb')"
  using assms by (auto simp: rb_inv_def append_rb_def Let_def)

lemma length_linear_view:
  assumes "rb_inv C rb"
  shows "length (linear_view rb) = (if full rb then C else write_idx rb)"
  using assms by (auto simp: rb_inv_def linear_view_def)

lemma linear_view_append:
  assumes inv: "rb_inv C rb" and app: "append_rb x rb = Inr rb'"
  shows "linear_view rb' = drop (length (linear_view rb) + 1 - C) (linear_view rb @ [x])"
proof -
  let ?w = "write_idx rb" and ?b = "buffer rb"
  from inv have len: "length ?b = C" and w: "?w < C" and sz: "size_rb rb = C"
    by (simp_all add: rb_inv_def)
  from app len w sz have rb':
    "buffer rb' = ?b[?w := x]" "write_idx rb' = (?w + 1) mod C"
    "full rb' = (if (?w + 1) mod C = 0 then True else full rb)"
    by (auto simp: append_rb_def Let_def split: if_splits)
  show ?thesis
  proof (cases "?w + 1 < C")
    case True
    then have w': "(?w + 1) mod C = ?w + 1" by simp
    show ?thesis
    proof (cases "full rb")
      case False
      with True w' rb' len show ?thesis
        by (simp add: linear_view_def take_Suc_conv_app_nth)
    next
      case full: True
      have d: "drop ?w ?b = ?b ! ?w # drop (Suc ?w) ?b"
        using w len by (simp add: Cons_nth_drop_Suc)
      from full True w' rb' len d show ?thesis
        by (simp add: linear_view_def take_Suc_conv_app_nth)
    qed
  next
    case False
    with w have wC: "?w + 1 = C" by simp
    then have w': "(?w + 1) mod C = 0" by simp
    have b': "?b[?w := x] = take ?w ?b @ [x]"
      using wC len by (simp add: upd_conv_take_nth_drop)
    show ?thesis
    proof (cases "full rb")
      case False
      with w' rb' b' wC len show ?thesis
        by (simp add: linear_view_def)
    next
      case full: True
      have d: "drop ?w ?b = [?b ! ?w]"
        using wC len by (metis Cons_nth_drop_Suc Suc_eq_plus1 drop_all lessI order_refl)
      from full w' rb' b' wC len d show ?thesis
        by (simp add: linear_view_def)
    qed
  qed
qed

lemma appends_append:
  "appends (xs @ ys) rb =
     (case appends xs rb of Inl e \<Rightarrow> Inl e | Inr rb' \<Rightarrow> appends ys rb')"
  by (induction xs arbitrary: rb) (auto split: sum.splits)

lemma appends_snoc:
  "appends (xs @ [x]) rb =
     (case appends xs rb of Inl e \<Rightarrow> Inl e | Inr rb' \<Rightarrow> append_rb x rb')"
  by (simp add: appends_append split: sum.splits)

lemma appends_ok:
  assumes "rb_inv C rb"
  shows "\<exists>rb'. appends xs rb = Inr rb' \<and> rb_inv C rb' \<and> (full rb \<longrightarrow> full rb')"
  using assms
proof (induction xs arbitrary: rb)
  case Nil
  then show ?case by simp
next
  case (Cons x xs)
  from append_rb_ok [OF Cons.prems, of x] obtain rb1 where
    1: "append_rb x rb = Inr rb1" "rb_inv C rb1" "full rb \<longrightarrow> full rb1" by blast
  from Cons.IH [OF 1(2)] obtain rb2 where
    2: "appends xs rb1 = Inr rb2" "rb_inv C rb2" "full rb1 \<longrightarrow> full rb2" by blast
  from 1 2 show ?case by simp
qed

text \<open>
  Appending \<open>xs\<close> to a buffer whose view is \<open>v\<close> leaves the last \<open>C\<close> rows of
  \<open>v @ xs\<close> when the view was full, and all of \<open>v @ xs\<close> cut to its last \<open>C\<close> rows
  otherwise: in both cases the last \<open>C\<close> rows of \<open>v @ xs\<close>.
\<close>

lemma linear_view_appends:
  assumes "rb_inv C rb" and "appends xs rb = Inr rb'"
  shows "linear_view rb' =
           drop (length (linear_view rb) + length xs - C) (linear_view rb @ xs)"
  using assms(2)
proof (induction xs arbitrary: rb' rule: rev_induct)
  case Nil
  have "length (linear_view rb) \<le> C"
    using length_linear_view [OF assms(1)] assms(1) by (simp add: rb_inv_def)
  with Nil show ?case by simp
next
  case (snoc x xs)
  from appends_ok [OF assms(1), of xs] obtain rb1 where
    1: "appends xs rb = Inr rb1" "rb_inv C rb1" by blast
  from snoc.prems 1 have app: "append_rb x rb1 = Inr rb'"
    by (simp add: appends_snoc)
  let ?v = "linear_view rb"
  have v1: "linear_view rb1 = drop (length ?v + length xs - C) (?v @ xs)"
    by (rule snoc.IH [OF 1(1)])
  have lv1: "length (linear_view rb1) \<le> C"
    using length_linear_view [OF 1(2)] 1(2) by (simp add: rb_inv_def)
  have "linear_view rb' =
          drop (length (linear_view rb1) + 1 - C) (linear_view rb1 @ [x])"
    by (rule linear_view_append [OF 1(2) app])
  also have "\<dots> = drop (length ?v + length (xs @ [x]) - C) (?v @ xs @ [x])"
  proof (cases "length ?v + length xs < C")
    case True
    then show ?thesis using v1 by simp
  next
    case False
    then have le: "C \<le> length ?v + length xs" by simp
    have l1: "length (linear_view rb1) = C"
      using v1 le 1(2) by (simp add: rb_inv_def)
    have "drop (length ?v + length xs - C) (?v @ xs) @ [x] =
            drop (length ?v + length xs - C) ((?v @ xs) @ [x])"
      by simp
    then show ?thesis using v1 l1 le
      by (simp add: Suc_diff_le del: drop_append)
  qed
  finally show ?case by simp
qed

text \<open>
  Claim C3. For a capacity \<open>C \<ge> 1\<close> and any sequence \<open>xs\<close> of appended rows, every
  append succeeds; if at most \<open>C\<close> rows were appended the view is exactly \<open>xs\<close>, in
  append order; if more than \<open>C\<close> were, the view is exactly the last \<open>C\<close> rows of
  \<open>xs\<close>, oldest first, and it is the segment of the array from \<open>write_idx\<close> to the
  end followed by the segment before \<open>write_idx\<close>.
\<close>

theorem linear_view_after_appends:
  assumes "0 < C"
  shows "\<exists>rb. appends xs (RingBuffer_init C g) = Inr rb \<and>
           (length xs \<le> C \<longrightarrow> linear_view rb = xs) \<and>
           (C < length xs \<longrightarrow>
              linear_view rb = drop (length xs - C) xs \<and>
              length (linear_view rb) = C \<and>
              linear_view rb =
                drop (write_idx rb) (buffer rb) @ take (write_idx rb) (buffer rb))"
proof -
  from appends_ok [OF rb_inv_init [OF assms], of xs g] obtain rb where
    rb: "appends xs (RingBuffer_init C g) = Inr rb" "rb_inv C rb" by blast
  have v: "linear_view rb = drop (length xs - C) xs"
    using linear_view_appends [OF rb_inv_init [OF assms] rb(1)]
    by (simp add: linear_view_init)
  have "full rb" if "C < length xs"
  proof (rule ccontr)
    assume "\<not> full rb"
    then have "length (linear_view rb) = write_idx rb"
      using length_linear_view [OF rb(2)] by simp
    moreover have "length (linear_view rb) = C" using v that by simp
    ultimately show False using rb(2) by (simp add: rb_inv_def)
  qed
  then have w: "linear_view rb =
      drop (write_idx rb) (buffer rb) @ take (write_idx rb) (buffer rb)"
    if "C < length xs"
    using that by (simp add: linear_view_def)
  have l: "length (linear_view rb) = C" if "C < length xs"
    using v that by simp
  show ?thesis
  proof (intro exI conjI impI)
    show "appends xs (RingBuffer_init C g) = Inr rb" by (rule rb(1))
    show "linear_view rb = xs" if "length xs \<le> C" using v that by simp
    show "linear_view rb = drop (length xs - C) xs" if "C < length xs" by (rule v)
    show "length (linear_view rb) = C" if "C < length xs" by (rule l [OF that])
    show "linear_view rb =
      drop (write_idx rb) (buffer rb) @ take (write_idx rb) (buffer rb)"
      if "C < length xs" by (rule w [OF that])
  qed
qed

theorem linear_view_after_appends_witness:
  "(0::nat) < 3 \<and>
   (\<exists>rb. appends [10, 20, 30, 40 :: nat] (RingBuffer_init 3 (\<lambda>_. 0)) = Inr rb \<and>
         linear_view rb = [20, 30, 40])"
proof -
  have pos: "(0::nat) < 3" by simp
  from linear_view_after_appends [OF pos, of "[10, 20, 30, 40 :: nat]" "\<lambda>_. 0"]
  obtain rb where "appends [10, 20, 30, 40 :: nat] (RingBuffer_init 3 (\<lambda>_. 0)) = Inr rb"
    and "linear_view rb = drop (length [10, 20, 30, 40 :: nat] - 3) [10, 20, 30, 40]"
    by auto
  then show ?thesis by auto
qed

section \<open>Properties of a flush tick\<close>

lemma py_slice_to_end: "py_slice i (length xs) xs = drop i xs"
  by (simp add: py_slice_def)

lemma new_rows_drop: "new_rows s = drop (last_flush_idx s) (linear_view (ring s))"
  by (simp add: new_rows_def Let_def py_slice_to_end)

lemma written_append: "written (l @ m) = written l @ written m"
  by (induction l rule: written.induct) simp_all

lemma roll_writer_fields:
  assumes "roll_writer e p s = (x, s')"
  shows "ring s' = ring s" "last_flush_idx s' = last_flush_idx s" "clock s' = clock s"
    "written (fs_log s') = written (fs_log s)"
    "writer_inv s \<Longrightarrow> writer_inv s'"
    "x = None \<Longrightarrow> writer_inv s \<Longrightarrow> parquet_writer s' = Some p"
  using assms
  by (auto simp: roll_writer_def writer_inv_def written_append split: if_splits option.splits)

lemma write_table_fields:
  assumes "write_table e rows s = (x, s')"
  shows "ring s' = ring s" "last_flush_idx s' = last_flush_idx s" "clock s' = clock s"
    "parquet_writer s' = parquet_writer s" "current_file_path s' = current_file_path s"
    "written (fs_log s') = written (fs_log s) @ (if x = None then rows else [])"
  using assms
  by (auto simp: write_table_def written_append split: if_splits option.splits)

lemma parquet_flush_noop:
  "length (linear_view (ring s)) \<le> last_flush_idx s \<Longrightarrow> parquet_flush e s = (None, s)"
  by (simp add: parquet_flush_def)

lemma parquet_flush_fields:
  assumes "parquet_flush e s = (x, s')"
  shows "ring s' = ring s" "clock s' = clock s"
    "last_flush_idx s' = max (last_flush_idx s) (length (linear_view (ring s)))"
    "writer_inv s \<Longrightarrow> writer_inv s'"
    "written (fs_log s') = written (fs_log s) @ (if x = None then new_rows s else [])"
  using assms
  by (auto simp: parquet_flush_def Let_def new_rows_def roll_writer_def write_table_def
      writer_inv_def written_append split: if_splits option.splits)

lemma parquet_flush_ok:
  assumes new: "last_flush_idx s < length (linear_view (ring s))"
    and ok: "io_ok e" and inv: "writer_inv s"
  shows "parquet_flush e s =
    (None,
     s\<lparr>last_flush_idx := length (linear_view (ring s)),
       parquet_writer := Some (bucket_file e),
       current_file_path := Some (bucket_file e),
       fs_log := fs_log s @ [Makedirs (bucket_dir e)] @
         (if current_file_path s = Some (bucket_file e) then []
          else (case parquet_writer s of None \<Rightarrow> [] | Some w \<Rightarrow> [CloseWriter w]) @
               [OpenWriter (bucket_file e)]) @
         [WriteTable (bucket_file e) (new_rows s)]\<rparr>)"
  using assms
  by (auto simp: parquet_flush_def roll_writer_def write_table_def io_ok_def writer_inv_def
      new_rows_def Let_def split: option.splits)

lemma final_flush_fields:
  assumes "final_flush e s = (x, s')"
  shows "ring s' = ring s" "clock s' = clock s" "last_flush_idx s' = last_flush_idx s"
    "parquet_writer s' = parquet_writer s" "current_file_path s' = current_file_path s"
  using assms
  by (auto simp: final_flush_def close_and_raise_def Let_def split: if_splits option.splits)

section \<open>What every reachable state satisfies\<close>

lemma ring_inv_init: "0 < C \<Longrightarrow> ring_inv C [] (MarketRecorder_init C g)"
  by (simp add: ring_inv_def MarketRecorder_init_def rb_inv_init linear_view_init writer_inv_def)

lemma drop_window:
  "drop (length (drop (length xs - C) xs) + length ys - C) (drop (length xs - C) xs @ ys) =
   drop (length xs + length ys - C) (xs @ ys)"
proof (cases "length xs \<le> C")
  case True
  then show ?thesis by simp
next
  case False
  then have "length (drop (length xs - C) xs) = C" by simp
  moreover have "drop (length xs - C) xs @ ys = drop (length xs - C) (xs @ ys)" by simp
  ultimately show ?thesis using False by (simp del: drop_append add: add.commute)
qed

lemma ring_inv_Append:
  assumes "ring_inv C xs s"
  shows "\<exists>rb. append_rb x (ring s) = Inr rb \<and> ring_inv C (xs @ [x]) (s\<lparr>ring := rb\<rparr>) \<and>
           (full (ring s) \<longrightarrow> full rb)"
proof -
  from assms have inv: "rb_inv C (ring s)" and w: "writer_inv s"
    and v: "linear_view (ring s) = drop (length xs - C) xs"
    and c: "last_flush_idx s \<le> length (linear_view (ring s))"
    unfolding ring_inv_def by blast+
  from append_rb_ok [OF inv, of x] obtain rb where
    rb: "append_rb x (ring s) = Inr rb" "rb_inv C rb" "full (ring s) \<longrightarrow> full rb" by blast
  have "linear_view rb =
      drop (length (linear_view (ring s)) + length [x] - C) (linear_view (ring s) @ [x])"
    using linear_view_append [OF inv rb(1)] by simp
  also have "\<dots> = drop (length xs + length [x] - C) (xs @ [x])"
    unfolding v by (rule drop_window)
  finally have v': "linear_view rb = drop (length (xs @ [x]) - C) (xs @ [x])" by simp
  have "length (linear_view (ring s)) \<le> length (linear_view rb)"
    unfolding v v' by simp
  with c have c': "last_flush_idx s \<le> length (linear_view rb)" by simp
  from rb w v' c' show ?thesis
    by (auto simp: ring_inv_def writer_inv_def)
qed

lemma ring_inv_step:
  assumes "ring_inv C xs s"
  shows "ring_inv C (xs @ appended [c]) (snd (exec_op c s))"
proof (cases c)
  case (Append x)
  from ring_inv_Append [OF assms, of x] Append show ?thesis by auto
next
  case LinearView
  with assms show ?thesis by simp
next
  case (Tick e)
  obtain x s' where f: "parquet_flush e s = (x, s')" by (cases "parquet_flush e s")
  note parquet_flush_fields [OF f]
  with assms f Tick show ?thesis
    by (auto simp: ring_inv_def split: option.splits)
next
  case (Shutdown e)
  obtain x s' where f: "final_flush e s = (x, s')" by (cases "final_flush e s")
  note final_flush_fields [OF f]
  with assms f Shutdown show ?thesis
    by (auto simp: ring_inv_def writer_inv_def)
qed

lemma appended_append: "appended (cs @ ds) = appended cs @ appended ds"
  by (induction cs rule: appended.induct) simp_all

lemma exec_ops_append: "exec_ops (cs @ ds) s = exec_ops ds (exec_ops cs s)"
  by (induction cs arbitrary: s) simp_all

lemma ring_inv_exec_ops:
  assumes "ring_inv C xs s"
  shows "ring_inv C (xs @ appended cs) (exec_ops cs s)"
  using assms
proof (induction cs arbitrary: xs s)
  case Nil
  then show ?case by simp
next
  case (Cons c cs)
  from ring_inv_step [OF Cons.prems, of c]
  have "ring_inv C (xs @ appended [c]) (snd (exec_op c s))" .
  from Cons.IH [OF this] show ?case
    using appended_append [of "[c]" cs] by simp
qed

lemma ring_inv_reachable:
  "0 < C \<Longrightarrow> ring_inv C (appended cs) (exec_ops cs (MarketRecorder_init C g))"
  using ring_inv_exec_ops [OF ring_inv_init, of C cs g] by simp

section \<open>The ring buffer over the recorder's lifetime\<close>

lemma reachable_length_view:
  assumes "0 < C"
  shows "length (linear_view (ring (exec_ops cs (MarketRecorder_init C g)))) =
           min (length (appended cs)) C"
  using ring_inv_reachable [OF assms, of cs g] by (auto simp: ring_inv_def)

lemma reachable_full_iff:
  assumes "0 < C"
  shows "full (ring (exec_ops cs (MarketRecorder_init C g))) \<longleftrightarrow> C \<le> length (appended cs)"
proof -
  let ?s = "exec_ops cs (MarketRecorder_init C g)"
  from ring_inv_reachable [OF assms, of cs g] have inv: "rb_inv C (ring ?s)"
    by (simp add: ring_inv_def)
  have "length (linear_view (ring ?s)) = (if full (ring ?s) then C else write_idx (ring ?s))"
    by (rule length_linear_view [OF inv])
  moreover have "write_idx (ring ?s) < C" using inv by (simp add: rb_inv_def)
  ultimately show ?thesis using reachable_length_view [OF assms, of cs g]
    by (auto split: if_splits)
qed

text \<open>
  Claim C10. Take a recorder whose buffer has capacity \<open>C \<ge> 1\<close>, any operations \<open>cs\<close>
  (appends, views, flush ticks, shutdowns) and any further operations \<open>ds\<close>. If the
  buffer is full after \<open>cs\<close> it is full after \<open>cs @ ds\<close>; the view after \<open>cs @ ds\<close> is at
  least as long as after \<open>cs\<close>; and once the buffer is full the view has length \<open>C\<close>.
  The buffer is full exactly from the \<open>C\<close>-th append on.
\<close>

theorem full_is_permanent:
  assumes "0 < C"
  shows "(full (ring (exec_ops cs (MarketRecorder_init C g))) \<longrightarrow>
            full (ring (exec_ops (cs @ ds) (MarketRecorder_init C g))) \<and>
            length (linear_view (ring (exec_ops (cs @ ds) (MarketRecorder_init C g)))) = C) \<and>
         length (linear_view (ring (exec_ops cs (MarketRecorder_init C g)))) \<le>
           length (linear_view (ring (exec_ops (cs @ ds) (MarketRecorder_init C g)))) \<and>
         (full (ring (exec_ops cs (MarketRecorder_init C g))) \<longleftrightarrow>
            C \<le> length (appended cs))"
  using reachable_full_iff [OF assms, of cs g] reachable_full_iff [OF assms, of "cs @ ds" g]
    reachable_length_view [OF assms, of cs g] reachable_length_view [OF assms, of "cs @ ds" g]
  by (auto simp: appended_append)

theorem full_is_permanent_witness:
  "(0::nat) < 2 \<and>
   full (ring (exec_ops [Append 5, Append 6] (MarketRecorder_init 2 zeros))) \<and>
   full (ring (exec_ops ([Append 5, Append 6] @ [Tick (tick_at 9 15), Append 7, LinearView,
     Shutdown (stop_at 9 16)]) (MarketRecorder_init 2 zeros))) \<and>
   length (linear_view (ring (exec_ops ([Append 5, Append 6] @ [Tick (tick_at 9 15), Append 7,
     LinearView, Shutdown (stop_at 9 16)]) (MarketRecorder_init 2 zeros)))) = 2"
proof -
  have pos: "(0::nat) < 2" by simp
  have f: "full (ring (exec_ops [Append 5, Append 6] (MarketRecorder_init 2 zeros)))"
    by code_simp
  from full_is_permanent [OF pos, of "[Append 5, Append 6]" zeros
      "[Tick (tick_at 9 15), Append 7, LinearView, Shutdown (stop_at 9 16)]"] f pos
  show ?thesis by blast
qed

section \<open>The view is a pure read\<close>

lemma exec_op_ring:
  assumes "appended [c] = []"
  shows "ring (snd (exec_op c s)) = ring s"
proof (cases c)
  case (Append x)
  with assms show ?thesis by simp
next
  case LinearView
  then show ?thesis by simp
next
  case (Tick e)
  obtain x s' where f: "parquet_flush e s = (x, s')" by (cases "parquet_flush e s")
  from parquet_flush_fields(1) [OF f] f Tick show ?thesis by (simp split: option.splits)
next
  case (Shutdown e)
  obtain x s' where f: "final_flush e s = (x, s')" by (cases "final_flush e s")
  from final_flush_fields(1) [OF f] f Shutdown show ?thesis by simp
qed

lemma exec_ops_ring:
  assumes "appended cs = []"
  shows "ring (exec_ops cs s) = ring s"
  using assms
proof (induction cs arbitrary: s)
  case Nil
  then show ?case by simp
next
  case (Cons c cs)
  from Cons.prems have c: "appended [c] = []" and cs: "appended cs = []"
    by (cases c; simp)+
  from Cons.IH [OF cs] exec_op_ring [OF c] show ?case by simp
qed

text \<open>
  Claim C9. In every state of the buffer, a call of \<open>linear_view\<close> leaves the whole
  state as it was, and a second call returns the sequence the first one returned when
  no append happened in between (whatever else did: flush ticks, views, a shutdown).
\<close>

theorem linear_view_idempotent:
  assumes "appended cs = []"
  shows "snd (exec_op LinearView s) = s \<and>
         fst (exec_op LinearView (snd (exec_op LinearView s))) = fst (exec_op LinearView s) \<and>
         fst (exec_op LinearView (exec_ops cs (snd (exec_op LinearView s)))) =
           fst (exec_op LinearView s) \<and>
         ring (exec_ops cs s) = ring s"
  using exec_ops_ring [OF assms] by simp

theorem linear_view_idempotent_witness:
  "appended [Tick (tick_at 9 15), LinearView :: nat op] = [] \<and>
   fst (exec_op LinearView (exec_ops [Tick (tick_at 9 15), LinearView]
     (snd (exec_op LinearView (exec_ops [Append 5, Append 6] (MarketRecorder_init 2 zeros)))))) =
   View [5, 6]"
proof -
  have a: "appended [Tick (tick_at 9 15), LinearView :: nat op] = []" by simp
  have v: "fst (exec_op LinearView (exec_ops [Append 5, Append 6] (MarketRecorder_init 2 zeros))) =
      View [5, 6]"
    by code_simp
  from linear_view_idempotent [OF a, of "exec_ops [Append 5, Append 6] (MarketRecorder_init 2 zeros)"]
    a v show ?thesis by simp
qed

section \<open>The flush tick\<close>

lemma parquet_flush_io_ok:
  assumes new: "last_flush_idx s < length (linear_view (ring s))" and ok: "io_ok e"
  shows "\<exists>l p s'. parquet_flush e s = (None, s') \<and>
           fs_log s' = fs_log s @ l @ [WriteTable p (new_rows s)] \<and> written l = []"
  using assms
  by (auto simp: parquet_flush_def roll_writer_def write_table_def io_ok_def
      new_rows_def Let_def split: option.splits)

text \<open>
  Claim C2. With \<open>N\<close> the length of the view at a flush tick: if \<open>N \<le> last_flush_idx\<close>
  the tick returns with the state exactly as it was (the file-system log included).
  Otherwise \<open>last_flush_idx\<close> becomes \<open>N\<close>, the ring is untouched, and the rows written
  by the tick are the slice \<open>view[last_flush_idx:N]\<close> and nothing else: when no
  file-system call fails the tick ends normally and its last call is the single
  \<open>write_table\<close> of that slice.
\<close>

theorem flush_tick_slice:
  "(length (linear_view (ring s)) \<le> last_flush_idx s \<longrightarrow> parquet_flush e s = (None, s)) \<and>
   (last_flush_idx s < length (linear_view (ring s)) \<longrightarrow>
      last_flush_idx (snd (parquet_flush e s)) = length (linear_view (ring s)) \<and>
      ring (snd (parquet_flush e s)) = ring s \<and>
      written (fs_log (snd (parquet_flush e s))) =
        written (fs_log s) @
          (if fst (parquet_flush e s) = None
           then py_slice (last_flush_idx s) (length (linear_view (ring s))) (linear_view (ring s))
           else []) \<and>
      (io_ok e \<longrightarrow>
         fst (parquet_flush e s) = None \<and>
         (\<exists>l p. fs_log (snd (parquet_flush e s)) =
            fs_log s @ l @
              [WriteTable p
                 (py_slice (last_flush_idx s) (length (linear_view (ring s)))
                    (linear_view (ring s)))] \<and>
            written l = [])))"
proof (intro conjI impI)
  assume "length (linear_view (ring s)) \<le> last_flush_idx s"
  then show "parquet_flush e s = (None, s)" by (rule parquet_flush_noop)
next
  assume new: "last_flush_idx s < length (linear_view (ring s))"
  obtain x s' where f: "parquet_flush e s = (x, s')" by (cases "parquet_flush e s")
  have nr: "new_rows s =
      py_slice (last_flush_idx s) (length (linear_view (ring s))) (linear_view (ring s))"
    using new by (simp add: new_rows_def Let_def)
  from parquet_flush_fields(3) [OF f] new f
  show "last_flush_idx (snd (parquet_flush e s)) = length (linear_view (ring s))" by simp
  from parquet_flush_fields(1) [OF f] f
  show "ring (snd (parquet_flush e s)) = ring s" by simp
  from parquet_flush_fields(5) [OF f] f nr
  show "written (fs_log (snd (parquet_flush e s))) =
        written (fs_log s) @
          (if fst (parquet_flush e s) = None
           then py_slice (last_flush_idx s) (length (linear_view (ring s))) (linear_view (ring s))
           else [])" by simp
  {
    assume ok: "io_ok e"
    from parquet_flush_io_ok [OF new ok] obtain l p s'' where
      r: "parquet_flush e s = (None, s'')"
         "fs_log s'' = fs_log s @ l @ [WriteTable p (new_rows s)]" "written l = []"
      by blast
    from r show "fst (parquet_flush e s) = None" by simp
    from r nr show "\<exists>l p. fs_log (snd (parquet_flush e s)) =
            fs_log s @ l @
              [WriteTable p
                 (py_slice (last_flush_idx s) (length (linear_view (ring s)))
                    (linear_view (ring s)))] \<and>
            written l = []" by auto
  }
qed

theorem flush_tick_slice_witness:
  "length (linear_view (ring (MarketRecorder_init 2 zeros))) \<le>
     last_flush_idx (MarketRecorder_init 2 zeros) \<and>
   parquet_flush (tick_at 9 15) (MarketRecorder_init 2 zeros) =
     (None, MarketRecorder_init 2 zeros) \<and>
   last_flush_idx (exec_ops [Append 5, Tick (tick_at 9 15), Append 6, Append 7]
     (MarketRecorder_init 3 zeros)) <
   length (linear_view (ring (exec_ops [Append 5, Tick (tick_at 9 15), Append 6, Append 7]
     (MarketRecorder_init 3 zeros)))) \<and>
   io_ok (tick_at 9 20) \<and>
   last_flush_idx (snd (parquet_flush (tick_at 9 20)
     (exec_ops [Append 5, Tick (tick_at 9 15), Append 6, Append 7]
       (MarketRecorder_init 3 zeros)))) = 3 \<and>
   written (fs_log (snd (parquet_flush (tick_at 9 20)
     (exec_ops [Append 5, Tick (tick_at 9 15), Append 6, Append 7]
       (MarketRecorder_init 3 zeros))))) = [5] @ [6, 7]"
proof -
  let ?a = "MarketRecorder_init 2 zeros :: nat MarketRecorder"
  let ?b = "exec_ops [Append 5, Tick (tick_at 9 15), Append 6, Append 7]
    (MarketRecorder_init 3 zeros)"
  have h0: "length (linear_view (ring ?a)) \<le> last_flush_idx ?a"
    by (simp add: run_defs)
  have c: "last_flush_idx ?b = 1" by (simp add: run_defs)
  have v: "linear_view (ring ?b) = [5, 6, 7]" by (simp add: run_defs)
  have w: "written (fs_log ?b) = [5]" by (simp add: run_defs)
  have h1: "last_flush_idx ?b < length (linear_view (ring ?b))"
    unfolding c v by simp
  have ok: "io_ok (tick_at 9 20)" by (simp add: io_ok_def tick_at_def)
  from flush_tick_slice [of ?a "tick_at 9 15"] h0
  have 1: "parquet_flush (tick_at 9 15) ?a = (None, ?a)" by blast
  from flush_tick_slice [of ?b "tick_at 9 20"] h1 ok
  have 2: "last_flush_idx (snd (parquet_flush (tick_at 9 20) ?b)) =
        length (linear_view (ring ?b))"
    and 3: "written (fs_log (snd (parquet_flush (tick_at 9 20) ?b))) =
        written (fs_log ?b) @
          py_slice (last_flush_idx ?b) (length (linear_view (ring ?b))) (linear_view (ring ?b))"
    by (auto simp del: exec_ops.simps)
  have 4: "py_slice 1 3 [5, 6, 7 :: nat] = [6, 7]" by (simp add: py_slice_def)
  from h0 1 h1 ok 2 3 4 show ?thesis
    unfolding c v w by (simp add: py_slice_def del: exec_ops.simps)
qed

section \<open>The life of a bucket writer\<close>

lemma replay_append:
  "replay cur (l @ m) = (case replay cur l of None \<Rightarrow> None | Some c \<Rightarrow> replay c m)"
  by (induction cur l rule: replay.induct) simp_all

lemma writer_inv_init: "writer_inv (MarketRecorder_init C g)"
  by (simp add: writer_inv_def MarketRecorder_init_def)

lemma parquet_flush_replay:
  assumes "parquet_flush e s = (None, s')" and "writer_inv s"
    and "replay c (fs_log s) = Some (parquet_writer s)"
  shows "replay c (fs_log s') = Some (parquet_writer s')"
  using assms
  by (auto simp: parquet_flush_def roll_writer_def write_table_def writer_inv_def
      replay_append Let_def split: if_splits option.splits)

lemma run_ops_exec_ops:
  assumes "run_ops cs s = (None, s')"
  shows "s' = exec_ops cs s"
  using assms
proof (induction cs arbitrary: s)
  case Nil
  then show ?case by simp
next
  case (Cons c cs)
  obtain r s1 where e: "exec_op c s = (r, s1)" by (cases "exec_op c s")
  with Cons.prems have "run_ops cs s1 = (None, s')"
    by (cases r) simp_all
  from Cons.IH [OF this] e show ?case by simp
qed

lemma writer_inv_exec_op: "writer_inv s \<Longrightarrow> writer_inv (snd (exec_op c s))"
proof (cases c)
  case (Append x)
  assume "writer_inv s"
  with Append show ?thesis by (simp add: writer_inv_def split: sum.splits)
next
  case LinearView
  assume "writer_inv s"
  with LinearView show ?thesis by simp
next
  case (Tick e)
  assume w: "writer_inv s"
  obtain x s' where f: "parquet_flush e s = (x, s')" by (cases "parquet_flush e s")
  from parquet_flush_fields(4) [OF f w] f Tick show ?thesis by (simp split: option.splits)
next
  case (Shutdown e)
  assume w: "writer_inv s"
  obtain x s' where f: "final_flush e s = (x, s')" by (cases "final_flush e s")
  from final_flush_fields(4,5) [OF f] w f Shutdown show ?thesis by (simp add: writer_inv_def)
qed

lemma writer_inv_exec_ops: "writer_inv s \<Longrightarrow> writer_inv (exec_ops cs s)"
  by (induction cs arbitrary: s) (simp_all add: writer_inv_exec_op)

lemma run_ops_replay:
  assumes "run_ops cs s = (None, s')" and "writer_inv s"
    and "replay c (fs_log s) = Some (parquet_writer s)"
  shows "replay c (fs_log s') = Some (parquet_writer s')"
  using assms
proof (induction cs arbitrary: s)
  case Nil
  then show ?case by simp
next
  case (Cons d ds)
  obtain r s1 where e: "exec_op d s = (r, s1)" by (cases "exec_op d s")
  with Cons.prems(1) have run: "run_ops ds s1 = (None, s')" and r: "\<forall>x. r \<noteq> Raised x"
    by (cases r; simp)+
  have w1: "writer_inv s1" using writer_inv_exec_op [OF Cons.prems(2), of d] e by simp
  have "replay c (fs_log s1) = Some (parquet_writer s1)"
  proof (cases d)
    case (Append x)
    with e Cons.prems(3) show ?thesis by (auto split: sum.splits)
  next
    case LinearView
    with e Cons.prems(3) show ?thesis by auto
  next
    case (Tick env)
    with e r have "parquet_flush env s = (None, s1)"
      by (auto split: prod.splits option.splits)
    from parquet_flush_replay [OF this Cons.prems(2,3)] show ?thesis .
  next
    case (Shutdown env)
    with e r show ?thesis by (auto split: prod.splits)
  qed
  from Cons.IH [OF run w1 this] show ?case .
qed

text \<open>
  Claim C6, as amended. Take a state reached by a run without exception, a tick that
  has new rows, and file-system calls that succeed. The tick calls \<open>makedirs\<close>; then, if the open
  writer's path is the target path \<open>bucket_file e\<close> (computed from the clock readings
  of this tick alone), it writes; otherwise it closes the open writer, if there is one,
  once, then opens a writer on the target path, then writes. The whole of the new rows
  goes in one \<open>write_table\<close> to the target file, whatever the rows hold. Over the
  whole log, writers are opened, written and closed in turn: no writer is closed
  twice or written after its close, and after the tick the target's writer is open.
\<close>

theorem bucket_rollover:
  assumes run: "run_ops cs (MarketRecorder_init C g) = (None, s)"
    and new: "last_flush_idx s < length (linear_view (ring s))"
    and ok: "io_ok e"
  shows "parquet_flush e s =
    (None,
     s\<lparr>last_flush_idx := length (linear_view (ring s)),
       parquet_writer := Some (bucket_file e),
       current_file_path := Some (bucket_file e),
       fs_log := fs_log s @ [Makedirs (bucket_dir e)] @
         (if current_file_path s = Some (bucket_file e) then []
          else (case parquet_writer s of None \<Rightarrow> [] | Some w \<Rightarrow> [CloseWriter w]) @
               [OpenWriter (bucket_file e)]) @
         [WriteTable (bucket_file e) (new_rows s)]\<rparr>) \<and>
    replay None (fs_log s) = Some (parquet_writer s) \<and>
    replay None (fs_log (snd (parquet_flush e s))) = Some (Some (bucket_file e))"
proof -
  have s: "s = exec_ops cs (MarketRecorder_init C g)"
    by (rule run_ops_exec_ops [OF run])
  have inv: "writer_inv s"
    unfolding s by (rule writer_inv_exec_ops [OF writer_inv_init])
  have r0: "replay None (fs_log (MarketRecorder_init C g)) =
      Some (parquet_writer (MarketRecorder_init C g))"
    by (simp add: MarketRecorder_init_def)
  have r: "replay None (fs_log s) = Some (parquet_writer s)"
    by (rule run_ops_replay [OF run writer_inv_init r0])
  note f = parquet_flush_ok [OF new ok inv]
  have pf: "parquet_flush e s = (None, snd (parquet_flush e s))"
    by (simp add: f)
  have "replay None (fs_log (snd (parquet_flush e s))) =
      Some (parquet_writer (snd (parquet_flush e s)))"
    by (rule parquet_flush_replay [OF pf inv r])
  then have "replay None (fs_log (snd (parquet_flush e s))) = Some (Some (bucket_file e))"
    by (simp add: f)
  with f r show ?thesis by simp
qed

theorem bucket_rollover_witness:
  "run_ops [Append 5, Tick (tick_at 9 15), Append 6] (MarketRecorder_init 3 zeros) =
     (None, exec_ops [Append 5, Tick (tick_at 9 15), Append 6] (MarketRecorder_init 3 zeros)) \<and>
   io_ok (tick_at 9 20) \<and>
   fs_log (snd (parquet_flush (tick_at 9 20)
     (exec_ops [Append 5, Tick (tick_at 9 15), Append 6] (MarketRecorder_init 3 zeros)))) =
   [Makedirs ''market_data/NIFTY_FUT/2024-03-07'',
    OpenWriter ''market_data/NIFTY_FUT/2024-03-07/09_15.parquet'',
    WriteTable ''market_data/NIFTY_FUT/2024-03-07/09_15.parquet'' [5],
    Makedirs ''market_data/NIFTY_FUT/2024-03-07'',
    CloseWriter ''market_data/NIFTY_FUT/2024-03-07/09_15.parquet'',
    OpenWriter ''market_data/NIFTY_FUT/2024-03-07/09_20.parquet'',
    WriteTable ''market_data/NIFTY_FUT/2024-03-07/09_20.parquet'' [6]]"
proof -
  let ?b = "exec_ops [Append 5, Tick (tick_at 9 15), Append 6] (MarketRecorder_init 3 zeros)"
  have st: "?b =
    \<lparr>ring = \<lparr>buffer = [5, 6, 0], size_rb = 3, write_idx = 2, full = False\<rparr>,
     last_flush_idx = 1,
     parquet_writer = Some ''market_data/NIFTY_FUT/2024-03-07/09_15.parquet'',
     current_file_path = Some ''market_data/NIFTY_FUT/2024-03-07/09_15.parquet'',
     fs_log =
       [Makedirs ''market_data/NIFTY_FUT/2024-03-07'',
        OpenWriter ''market_data/NIFTY_FUT/2024-03-07/09_15.parquet'',
        WriteTable ''market_data/NIFTY_FUT/2024-03-07/09_15.parquet'' [5]],
     clock = 0\<rparr>"
    by (simp add: run_defs)
  have run: "run_ops [Append 5, Tick (tick_at 9 15), Append 6] (MarketRecorder_init 3 zeros) =
      (None, ?b)"
    by (simp add: run_defs)
  have new: "last_flush_idx ?b < length (linear_view (ring ?b))"
    unfolding st by (simp add: linear_view_def)
  have ok: "io_ok (tick_at 9 20)" by (simp add: io_ok_def tick_at_def)
  have nr: "new_rows ?b = [6]" unfolding st by (simp add: run_defs)
  have bf: "bucket_file (tick_at 9 20) = ''market_data/NIFTY_FUT/2024-03-07/09_20.parquet''"
    "bucket_dir (tick_at 9 20) = ''market_data/NIFTY_FUT/2024-03-07''"
    by (simp_all add: run_defs)
  from bucket_rollover [OF run new ok]
  have "fs_log (snd (parquet_flush (tick_at 9 20) ?b)) =
      fs_log ?b @ [Makedirs (bucket_dir (tick_at 9 20))] @
         (if current_file_path ?b = Some (bucket_file (tick_at 9 20)) then []
          else (case parquet_writer ?b of None \<Rightarrow> [] | Some w \<Rightarrow> [CloseWriter w]) @
               [OpenWriter (bucket_file (tick_at 9 20))]) @
         [WriteTable (bucket_file (tick_at 9 20)) (new_rows ?b)]"
    by (simp del: exec_ops.simps)
  also have "\<dots> =
   [Makedirs ''market_data/NIFTY_FUT/2024-03-07'',
    OpenWriter ''market_data/NIFTY_FUT/2024-03-07/09_15.parquet'',
    WriteTable ''market_data/NIFTY_FUT/2024-03-07/09_15.parquet'' [5],
    Makedirs ''market_data/NIFTY_FUT/2024-03-07'',
    CloseWriter ''market_data/NIFTY_FUT/2024-03-07/09_15.parquet'',
    OpenWriter ''market_data/NIFTY_FUT/2024-03-07/09_20.parquet'',
    WriteTable ''market_data/NIFTY_FUT/2024-03-07/09_20.parquet'' [6]]"
    unfolding nr bf unfolding st by simp
  finally show ?thesis using run ok by (simp del: exec_ops.simps run_ops.simps)
qed

text \<open>
  Claim C6 as stated fails for a tick that has no new rows. Row 5 was flushed at 09:15
  and that bucket's writer is open; the tick at 09:20 computes another bucket, finds
  nothing new, and returns with the state as it was: nothing is closed or opened.
\<close>

theorem rollover_counterexample:
  "parquet_writer (exec_ops [Append 5, Tick (tick_at 9 15)] (MarketRecorder_init 3 zeros)) =
     Some ''market_data/NIFTY_FUT/2024-03-07/09_15.parquet'' \<and>
   bucket_file (tick_at 9 20) = ''market_data/NIFTY_FUT/2024-03-07/09_20.parquet'' \<and>
   parquet_flush (tick_at 9 20)
     (exec_ops [Append 5, Tick (tick_at 9 15)] (MarketRecorder_init 3 zeros)) =
   (None, exec_ops [Append 5, Tick (tick_at 9 15)] (MarketRecorder_init 3 zeros))"
  by (simp add: run_defs)

section \<open>The flush cursor and the wrap of the ring\<close>

lemma exec_ops_Appends_cursor:
  "last_flush_idx (exec_ops (map Append ws) s) = last_flush_idx s"
  by (induction ws arbitrary: s) (auto split: sum.splits)

lemma tick_cursor:
  assumes "ring_inv C xs s"
  shows "last_flush_idx (snd (exec_op (Tick e) s)) = length (linear_view (ring s))"
proof -
  obtain x s' where f: "parquet_flush e s = (x, s')" by (cases "parquet_flush e s")
  from assms have "last_flush_idx s \<le> length (linear_view (ring s))"
    unfolding ring_inv_def by blast
  with parquet_flush_fields(3) [OF f] f show ?thesis by (simp split: option.splits)
qed

lemma appended_map_Append: "appended (map Append ws) = ws"
  by (induction ws) simp_all

text \<open>
  The state at the second tick of a window: any operations \<open>cs\<close>, the first tick, then
  the appends \<open>ws\<close> of the window. The cursor is the length the view had at the first
  tick, the view holds the last \<open>C\<close> rows of everything appended.
\<close>

lemma window_state:
  fixes cs :: "'a op list" and ws :: "'a list" and e :: env and g :: "nat \<Rightarrow> 'a" and C :: nat
  assumes "0 < C"
  defines "s \<equiv> exec_ops (cs @ [Tick e] @ map Append ws) (MarketRecorder_init C g)"
  shows "last_flush_idx s = min (length (appended cs)) C"
    and "linear_view (ring s) =
           drop (length (appended cs) + length ws - C) (appended cs @ ws)"
proof -
  let ?s0 = "exec_ops cs (MarketRecorder_init C g)"
  have inv0: "ring_inv C (appended cs) ?s0" by (rule ring_inv_reachable [OF assms(1)])
  have "last_flush_idx s = last_flush_idx (snd (exec_op (Tick e) ?s0))"
    unfolding s_def by (simp add: exec_ops_append exec_ops_Appends_cursor)
  also have "\<dots> = length (linear_view (ring ?s0))" by (rule tick_cursor [OF inv0])
  also have "\<dots> = min (length (appended cs)) C"
    by (rule reachable_length_view [OF assms(1)])
  finally show "last_flush_idx s = min (length (appended cs)) C" .
  have "ring_inv C (appended (cs @ [Tick e] @ map Append ws)) s"
    unfolding s_def by (rule ring_inv_reachable [OF assms(1)])
  then show "linear_view (ring s) =
           drop (length (appended cs) + length ws - C) (appended cs @ ws)"
    by (simp add: ring_inv_def appended_append appended_map_Append)
qed

text \<open>
  Claim C1, as amended. Take a capacity \<open>C \<ge> 1\<close>, any operations \<open>cs\<close> before
  the first tick of a window, and the rows \<open>ws\<close> appended between that tick and the
  next. If the rows appended since the recorder was created, those of the window
  included, are at most \<open>C\<close> (the ring has overwritten no row yet), then the rows
  the second tick hands to the writer are exactly \<open>ws\<close>, each once and in append order,
  and a second tick that ends normally has written exactly \<open>ws\<close>.
\<close>

theorem no_loss_before_wrap:
  assumes "0 < C" and "length (appended cs) + length ws \<le> C"
  shows "new_rows (exec_ops (cs @ [Tick e] @ map Append ws) (MarketRecorder_init C g)) = ws \<and>
    written (fs_log (snd (parquet_flush e2
      (exec_ops (cs @ [Tick e] @ map Append ws) (MarketRecorder_init C g))))) =
    written (fs_log (exec_ops (cs @ [Tick e] @ map Append ws) (MarketRecorder_init C g))) @
      (if fst (parquet_flush e2
         (exec_ops (cs @ [Tick e] @ map Append ws) (MarketRecorder_init C g))) = None
       then ws else [])"
proof -
  let ?s = "exec_ops (cs @ [Tick e] @ map Append ws) (MarketRecorder_init C g)"
  from window_state [OF assms(1), of cs e ws g] assms(2)
  have c: "last_flush_idx ?s = length (appended cs)"
    and v: "linear_view (ring ?s) = appended cs @ ws"
    by simp_all
  have nr: "new_rows ?s = ws"
    unfolding new_rows_drop c v by simp
  obtain x s' where f: "parquet_flush e2 ?s = (x, s')" by (cases "parquet_flush e2 ?s")
  from parquet_flush_fields(5) [OF f] f nr show ?thesis by simp
qed

theorem no_loss_before_wrap_witness:
  "(0::nat) < 3 \<and> length (appended [Append 1, LinearView :: nat op]) + length [2, 3 :: nat] \<le> 3 \<and>
   new_rows (exec_ops ([Append 1, LinearView] @ [Tick (tick_at 9 15)] @ map Append [2, 3])
     (MarketRecorder_init 3 zeros)) = [2, 3]"
proof -
  have pos: "(0::nat) < 3" by simp
  have le: "length (appended [Append 1, LinearView :: nat op]) + length [2, 3 :: nat] \<le> 3"
    by simp
  from no_loss_before_wrap [OF pos le, of "tick_at 9 15" zeros] pos le
  show ?thesis by blast
qed

text \<open>
  The condition cannot be dropped: once more than \<open>C\<close> rows have been appended in
  all, a window that appended anything loses rows at its second tick.
\<close>

lemma loss_after_wrap:
  assumes "0 < C" and "C < length (appended cs) + length ws" and "ws \<noteq> []"
  shows "length (new_rows (exec_ops (cs @ [Tick e] @ map Append ws)
           (MarketRecorder_init C g))) < length ws"
proof -
  let ?s = "exec_ops (cs @ [Tick e] @ map Append ws) (MarketRecorder_init C g)"
  from window_state [OF assms(1), of cs e ws g]
  have c: "last_flush_idx ?s = min (length (appended cs)) C"
    and v: "linear_view (ring ?s) =
           drop (length (appended cs) + length ws - C) (appended cs @ ws)"
    by simp_all
  have l: "length (new_rows ?s) = C - min (length (appended cs)) C"
    unfolding new_rows_drop c v using assms(2) by simp
  from assms(3) have k: "0 < length ws" by simp
  have "C - min (length (appended cs)) C < length ws"
    using assms(2) k by (cases "length (appended cs) \<le> C") simp_all
  with l show ?thesis by simp
qed

text \<open>
  Once \<open>C\<close> rows have been appended and a tick has run, no later tick has new rows:
  the cursor and the length of the view both stay at \<open>C\<close>, and every tick returns
  with the state as it was.
\<close>

lemma exec_op_cursor_mono: "last_flush_idx s \<le> last_flush_idx (snd (exec_op c s))"
proof (cases c)
  case (Append x)
  then show ?thesis by (simp split: sum.splits)
next
  case LinearView
  then show ?thesis by simp
next
  case (Tick e)
  obtain x s' where f: "parquet_flush e s = (x, s')" by (cases "parquet_flush e s")
  from parquet_flush_fields(3) [OF f] f Tick show ?thesis by (simp split: option.splits)
next
  case (Shutdown e)
  obtain x s' where f: "final_flush e s = (x, s')" by (cases "final_flush e s")
  from final_flush_fields(3) [OF f] f Shutdown show ?thesis by simp
qed

lemma exec_ops_cursor_mono: "last_flush_idx s \<le> last_flush_idx (exec_ops cs s)"
proof (induction cs arbitrary: s)
  case Nil
  then show ?case by simp
next
  case (Cons c cs)
  have "last_flush_idx s \<le> last_flush_idx (snd (exec_op c s))"
    by (rule exec_op_cursor_mono)
  also have "\<dots> \<le> last_flush_idx (exec_ops cs (snd (exec_op c s)))" by (rule Cons.IH)
  finally show ?case by simp
qed

lemma no_new_rows_after_wrap:
  assumes "0 < C" and "C \<le> length (appended cs)"
  shows "parquet_flush e' (exec_ops (cs @ [Tick e] @ ds) (MarketRecorder_init C g)) =
           (None, exec_ops (cs @ [Tick e] @ ds) (MarketRecorder_init C g))"
proof -
  let ?s0 = "exec_ops cs (MarketRecorder_init C g)"
  let ?s1 = "snd (exec_op (Tick e) ?s0)"
  let ?s2 = "exec_ops (cs @ [Tick e] @ ds) (MarketRecorder_init C g)"
  have inv0: "ring_inv C (appended cs) ?s0" by (rule ring_inv_reachable [OF assms(1)])
  have "last_flush_idx ?s1 = length (linear_view (ring ?s0))" by (rule tick_cursor [OF inv0])
  also have "\<dots> = C" using reachable_length_view [OF assms(1), of cs g] assms(2) by simp
  finally have c1: "last_flush_idx ?s1 = C" .
  have "?s2 = exec_ops ds ?s1" by (simp add: exec_ops_append)
  then have "last_flush_idx ?s1 \<le> last_flush_idx ?s2"
    using exec_ops_cursor_mono [of ?s1 ds] by simp
  with c1 have c2: "C \<le> last_flush_idx ?s2" by simp
  have "length (linear_view (ring ?s2)) = min (length (appended (cs @ [Tick e] @ ds))) C"
    by (rule reachable_length_view [OF assms(1)])
  then have "length (linear_view (ring ?s2)) \<le> last_flush_idx ?s2" using c2 by simp
  then show ?thesis by (rule parquet_flush_noop)
qed

text \<open>
  Claim C1 as stated fails. With capacity 3, rows 1 and 2 are appended and flushed;
  the window appends 3 and 4 (two rows, at most the capacity). The view is then
  \<open>[2, 3, 4]\<close> and the cursor 2, so the second tick writes \<open>[4]\<close>: row 3 is never
  written. When the ring had wrapped before the window, the second tick writes nothing.
\<close>

theorem no_loss_counterexample:
  "length [3, 4 :: nat] \<le> 3 \<and>
   new_rows (exec_ops ([Append 1, Append 2] @ [Tick (tick_at 9 15)] @ map Append [3, 4])
     (MarketRecorder_init 3 zeros)) = [4] \<and>
   written (fs_log (snd (parquet_flush (tick_at 9 20)
     (exec_ops ([Append 1, Append 2] @ [Tick (tick_at 9 15)] @ map Append [3, 4])
       (MarketRecorder_init 3 zeros))))) = [1, 2, 4] \<and>
   length [5 :: nat] \<le> 3 \<and>
   new_rows (exec_ops ([Append 1, Append 2, Append 3, Append 4] @ [Tick (tick_at 9 15)] @
     map Append [5]) (MarketRecorder_init 3 zeros)) = []"
  by (simp add: run_defs)

section \<open>A flush tick whose file-system call raises\<close>

lemma run_ops_snoc:
  assumes "run_ops cs s0 = (None, s)"
  shows "run_ops (cs @ [c]) s0 =
           (case exec_op c s of (Raised x, s') \<Rightarrow> (Some x, s') | (_, s') \<Rightarrow> (None, s'))"
  using assms
proof (induction cs arbitrary: s0)
  case Nil
  then show ?case by (auto split: prod.splits res.splits)
next
  case (Cons d ds)
  obtain r s1 where e: "exec_op d s0 = (r, s1)" by (cases "exec_op d s0")
  with Cons.prems have "run_ops ds s1 = (None, s)" by (cases r) simp_all
  from Cons.IH [OF this] e Cons.prems show ?case by (cases r) simp_all
qed

text \<open>
  Claim C5, as amended. When a tick that has new rows ends in an exception (a
  file-system call raised), the exception leaves \<open>parquet_flush\<close> with
  \<open>last_flush_idx\<close> already set to the length of the view and the ring untouched;
  none of the new rows has been written, and the next tick would find no new rows.
  In \<open>run\<close> the exception is not a cancellation, so it leaves \<open>run\<close> as it is, without
  a final flush.
\<close>

theorem failed_tick_keeps_cursor_advanced:
  assumes new: "last_flush_idx s < length (linear_view (ring s))"
    and fail: "parquet_flush e s = (Some x, s')"
    and run: "run_ops cs s0 = (None, s)"
  shows "last_flush_idx s' = length (linear_view (ring s)) \<and> ring s' = ring s \<and>
         written (fs_log s') = written (fs_log s) \<and> new_rows s' = [] \<and>
         x \<noteq> CancelledError \<and>
         run (cs @ [Tick e]) stop s0 = (x, s')"
proof -
  note fl = parquet_flush_fields [OF fail]
  from fl(3) new have c: "last_flush_idx s' = length (linear_view (ring s))" by simp
  from fl(5) have w: "written (fs_log s') = written (fs_log s)" by simp
  have nr: "new_rows s' = []" unfolding new_rows_drop c fl(1) by simp
  from fail have x: "x \<noteq> CancelledError"
    by (auto simp: parquet_flush_def roll_writer_def write_table_def Let_def
        split: if_splits option.splits)
  have "run_ops (cs @ [Tick e]) s0 = (Some x, s')"
    using run_ops_snoc [OF run, of "Tick e"] fail by simp
  then have "run (cs @ [Tick e]) stop s0 = (x, s')" by (simp add: run_def)
  with c fl(1) w nr x show ?thesis by simp
qed

theorem failed_tick_keeps_cursor_advanced_witness:
  "last_flush_idx (exec_ops [Append 5, Append 6] (MarketRecorder_init 3 zeros)) <
     length (linear_view (ring (exec_ops [Append 5, Append 6] (MarketRecorder_init 3 zeros)))) \<and>
   fst (parquet_flush (failing_write_at 9 15)
     (exec_ops [Append 5, Append 6] (MarketRecorder_init 3 zeros))) = Some OSError \<and>
   run_ops [Append 5, Append 6] (MarketRecorder_init 3 zeros) =
     (None, exec_ops [Append 5, Append 6] (MarketRecorder_init 3 zeros)) \<and>
   fst (run ([Append 5, Append 6] @ [Tick (failing_write_at 9 15)]) (stop_at 9 16)
     (MarketRecorder_init 3 zeros)) = OSError \<and>
   written (fs_log (snd (run ([Append 5, Append 6] @ [Tick (failing_write_at 9 15)])
     (stop_at 9 16) (MarketRecorder_init 3 zeros)))) = []"
proof -
  let ?b = "exec_ops [Append 5, Append 6] (MarketRecorder_init 3 zeros)"
  let ?e = "failing_write_at 9 15"
  have new: "last_flush_idx ?b < length (linear_view (ring ?b))" by (simp add: run_defs)
  have run: "run_ops [Append 5, Append 6] (MarketRecorder_init 3 zeros) = (None, ?b)"
    by (simp add: run_defs)
  have x: "fst (parquet_flush ?e ?b) = Some OSError" by (simp add: run_defs)
  then have fail: "parquet_flush ?e ?b = (Some OSError, snd (parquet_flush ?e ?b))"
    by (metis prod.collapse)
  have w: "written (fs_log ?b) = []" by (simp add: run_defs)
  from failed_tick_keeps_cursor_advanced [OF new fail run, of "stop_at 9 16"] w
  have "fst (run ([Append 5, Append 6] @ [Tick ?e]) (stop_at 9 16)
          (MarketRecorder_init 3 zeros)) = OSError"
    and "written (fs_log (snd (run ([Append 5, Append 6] @ [Tick ?e])
          (stop_at 9 16) (MarketRecorder_init 3 zeros)))) = []"
    by (simp_all del: exec_ops.simps)
  with new x run show ?thesis by (simp del: exec_ops.simps run_ops.simps)
qed

text \<open>
  Claim C5 as stated fails. Rows 5 and 6 are in the view, the cursor is 0, and
  \<open>write_table\<close> raises: after the tick the cursor is 2, past both rows, though
  neither has been written.
\<close>

theorem failed_write_counterexample:
  "last_flush_idx (exec_ops [Append 5, Append 6] (MarketRecorder_init 3 zeros)) = 0 \<and>
   new_rows (exec_ops [Append 5, Append 6] (MarketRecorder_init 3 zeros)) = [5, 6] \<and>
   fst (parquet_flush (failing_write_at 9 15)
     (exec_ops [Append 5, Append 6] (MarketRecorder_init 3 zeros))) = Some OSError \<and>
   last_flush_idx (snd (parquet_flush (failing_write_at 9 15)
     (exec_ops [Append 5, Append 6] (MarketRecorder_init 3 zeros)))) = 2 \<and>
   written (fs_log (snd (parquet_flush (failing_write_at 9 15)
     (exec_ops [Append 5, Append 6] (MarketRecorder_init 3 zeros))))) = [] \<and>
   snd (parquet_flush (failing_write_at 9 15)
     (exec_ops [Append 5, Append 6] (MarketRecorder_init 3 zeros))) \<noteq>
   exec_ops [Append 5, Append 6] (MarketRecorder_init 3 zeros)"
  by (simp add: run_defs)

section \<open>What has been written, against what was appended\<close>

lemma subseq_take_mono:
  assumes "k \<le> k'"
  shows "subseq (take k zs) (take k' zs)"
proof -
  have "take k zs = take k (take k' zs)" using assms by (simp add: min_def)
  then have "prefix (take k zs) (take k' zs)" by (metis take_is_prefix)
  then show ?thesis by (rule prefix_imp_subseq)
qed

lemma pending_rows:
  assumes "ring_inv C xs s"
  shows "drop (last_flush_idx s) (linear_view (ring s)) =
           drop (length xs - (length (linear_view (ring s)) - last_flush_idx s)) xs"
proof -
  from assms have v: "linear_view (ring s) = drop (length xs - C) xs"
    and c: "last_flush_idx s \<le> length (linear_view (ring s))"
    unfolding ring_inv_def by blast+
  have "length xs - (length (linear_view (ring s)) - last_flush_idx s) =
          last_flush_idx s + (length xs - C)"
    using c unfolding v by simp
  then show ?thesis unfolding v by simp
qed

lemma flushed_inv_Append:
  assumes inv: "ring_inv C xs s" and fl: "flushed_inv xs s"
    and app: "append_rb x (ring s) = Inr rb"
  shows "flushed_inv (xs @ [x]) (s\<lparr>ring := rb\<rparr>)"
proof -
  from ring_inv_Append [OF inv, of x] app
  have inv': "ring_inv C (xs @ [x]) (s\<lparr>ring := rb\<rparr>)" by simp
  from inv have v: "linear_view (ring s) = drop (length xs - C) xs"
    and c: "last_flush_idx s \<le> length (linear_view (ring s))"
    unfolding ring_inv_def by blast+
  from inv' have v': "linear_view rb = drop (length (xs @ [x]) - C) (xs @ [x])"
    unfolding ring_inv_def by simp
  let ?k = "length xs - (length (linear_view (ring s)) - last_flush_idx s)"
  let ?k' = "length (xs @ [x]) - (length (linear_view rb) - last_flush_idx s)"
  have le: "?k \<le> ?k'" unfolding v v' by simp
  have kn: "?k \<le> length xs" by simp
  have "subseq (take ?k xs) (take ?k' (xs @ [x]))"
  proof -
    have "take ?k xs = take ?k (xs @ [x])" using kn by simp
    then show ?thesis using subseq_take_mono [OF le, of "xs @ [x]"] by simp
  qed
  with fl have "subseq (written (fs_log s)) (take ?k' (xs @ [x]))"
    unfolding flushed_inv_def by (rule subseq_order.trans)
  then show ?thesis by (simp add: flushed_inv_def)
qed

lemma flushed_inv_Tick:
  assumes inv: "ring_inv C xs s" and fl: "flushed_inv xs s"
    and f: "parquet_flush e s = (x, s')"
  shows "flushed_inv xs s'"
proof -
  note fs = parquet_flush_fields [OF f]
  from inv have c: "last_flush_idx s \<le> length (linear_view (ring s))"
    unfolding ring_inv_def by blast
  let ?k = "length xs - (length (linear_view (ring s)) - last_flush_idx s)"
  from fs(1,3) c have k': "length xs - (length (linear_view (ring s')) - last_flush_idx s') =
      length xs" by simp
  have "subseq (written (fs_log s')) xs"
  proof (cases x)
    case None
    with fs(5) have w: "written (fs_log s') = written (fs_log s) @ drop ?k xs"
      by (simp add: new_rows_drop pending_rows [OF inv])
    from fl have "subseq (written (fs_log s) @ drop ?k xs) (take ?k xs @ drop ?k xs)"
      unfolding flushed_inv_def by (rule list_emb_append_mono) simp
    then show ?thesis unfolding w by simp
  next
    case (Some y)
    with fs(5) have "written (fs_log s') = written (fs_log s)" by simp
    with fl have "subseq (written (fs_log s')) (take ?k xs)" by (simp add: flushed_inv_def)
    moreover have "subseq (take ?k xs) xs" by (metis take_is_prefix prefix_imp_subseq)
    ultimately show ?thesis by (rule subseq_order.trans)
  qed
  then show ?thesis unfolding flushed_inv_def k' by simp
qed

lemma run_ops_flushed:
  assumes "run_ops cs s = (None, s')" and "ring_inv C xs s" and "flushed_inv xs s"
  shows "ring_inv C (xs @ appended cs) s' \<and> flushed_inv (xs @ appended cs) s'"
  using assms
proof (induction cs arbitrary: s xs)
  case Nil
  then show ?case by simp
next
  case (Cons d ds)
  obtain r s1 where e: "exec_op d s = (r, s1)" by (cases "exec_op d s")
  with Cons.prems(1) have run: "run_ops ds s1 = (None, s')" and r: "\<forall>x. r \<noteq> Raised x"
    by (cases r; simp)+
  have inv1: "ring_inv C (xs @ appended [d]) s1"
    using ring_inv_step [OF Cons.prems(2), of d] e by simp
  have fl1: "flushed_inv (xs @ appended [d]) s1"
  proof (cases d)
    case (Append x)
    with e r obtain rb where "append_rb x (ring s) = Inr rb" "s1 = s\<lparr>ring := rb\<rparr>"
      by (auto split: sum.splits)
    with flushed_inv_Append [OF Cons.prems(2,3)] Append show ?thesis by simp
  next
    case LinearView
    with e Cons.prems(3) show ?thesis by auto
  next
    case (Tick env)
    with e obtain x where "parquet_flush env s = (x, s1)"
      by (auto split: prod.splits option.splits)
    from flushed_inv_Tick [OF Cons.prems(2,3) this] Tick show ?thesis by simp
  next
    case (Shutdown env)
    with e r show ?thesis by (auto split: prod.splits)
  qed
  from Cons.IH [OF run inv1 fl1] show ?case
    using appended_append [of "[d]" ds] by simp
qed

text \<open>While no row has been overwritten, what has been written is the rows before the cursor.\<close>

lemma run_ops_exact:
  assumes "run_ops cs s = (None, s')" and "ring_inv C xs s"
    and "written (fs_log s) = take (last_flush_idx s) xs"
    and "length (xs @ appended cs) \<le> C"
  shows "written (fs_log s') = take (last_flush_idx s') (xs @ appended cs)"
  using assms
proof (induction cs arbitrary: s xs)
  case Nil
  then show ?case by simp
next
  case (Cons d ds)
  obtain r s1 where e: "exec_op d s = (r, s1)" by (cases "exec_op d s")
  with Cons.prems(1) have run: "run_ops ds s1 = (None, s')" and r: "\<forall>x. r \<noteq> Raised x"
    by (cases r; simp)+
  have inv1: "ring_inv C (xs @ appended [d]) s1"
    using ring_inv_step [OF Cons.prems(2), of d] e by simp
  have ap: "xs @ appended (d # ds) = (xs @ appended [d]) @ appended ds"
    using appended_append [of "[d]" ds] by simp
  from Cons.prems(4) have le1: "length ((xs @ appended [d]) @ appended ds) \<le> C"
    unfolding ap .
  then have le0: "length xs \<le> C" by simp
  from Cons.prems(2) have v: "linear_view (ring s) = drop (length xs - C) xs"
    and c: "last_flush_idx s \<le> length (linear_view (ring s))"
    unfolding ring_inv_def by blast+
  from v le0 have v0: "linear_view (ring s) = xs" by simp
  have w1: "written (fs_log s1) = take (last_flush_idx s1) (xs @ appended [d])"
  proof (cases d)
    case (Append x)
    with e r obtain rb where "append_rb x (ring s) = Inr rb" "s1 = s\<lparr>ring := rb\<rparr>"
      by (auto split: sum.splits)
    with Cons.prems(3) c v0 Append show ?thesis by simp
  next
    case LinearView
    with e Cons.prems(3) show ?thesis by auto
  next
    case (Tick env)
    with e r have f: "parquet_flush env s = (None, s1)"
      by (auto split: prod.splits option.splits)
    note fs = parquet_flush_fields [OF f]
    from fs(3) c v0 have c1: "last_flush_idx s1 = length xs" by simp
    from fs(5) Cons.prems(3) v0 have "written (fs_log s1) = xs"
      by (simp add: new_rows_drop)
    with c1 Tick show ?thesis by simp
  next
    case (Shutdown env)
    with e r show ?thesis by (auto split: prod.splits)
  qed
  from Cons.IH [OF run inv1 w1 le1] show ?case unfolding ap .
qed

section \<open>File names\<close>

lemma dec_digits: "dec n \<noteq> [] \<and> set (dec n) \<subseteq> set ''0123456789''"
proof (induction n rule: dec.induct)
  case (1 n)
  have d: "digit k \<in> set ''0123456789''" if "k < 10" for k
  proof -
    from that have "k < length ''0123456789''" by simp
    then show ?thesis unfolding digit_def by (rule nth_mem)
  qed
  show ?case
  proof (cases "n < 10")
    case True
    then show ?thesis using d [of n] by (subst dec.simps, subst dec.simps) simp
  next
    case False
    have m: "digit (n mod 10) \<in> set ''0123456789''" by (rule d) simp
    from False 1 have ih: "dec (n div 10) \<noteq> [] \<and> set (dec (n div 10)) \<subseteq> set ''0123456789''"
      by simp
    have "dec n = dec (n div 10) @ [digit (n mod 10)]"
      using False by (subst dec.simps) simp
    with ih m show ?thesis by simp
  qed
qed

lemma zpad_digits: "zpad w n \<noteq> [] \<and> set (zpad w n) \<subseteq> set ''0123456789''"
  using dec_digits [of n] by (auto simp: zpad_def)

lemma zpad_no_slash:
  "zpad w n \<noteq> []" "hd (zpad w n) \<noteq> CHR ''/''" "last (zpad w n) \<noteq> CHR ''/''"
proof -
  from zpad_digits [of w n] show ne: "zpad w n \<noteq> []" by simp
  from ne have "hd (zpad w n) \<in> set (zpad w n)" "last (zpad w n) \<in> set (zpad w n)"
    by simp_all
  with zpad_digits [of w n]
  have "hd (zpad w n) \<in> set ''0123456789''" "last (zpad w n) \<in> set ''0123456789''"
    by blast+
  then show "hd (zpad w n) \<noteq> CHR ''/''" "last (zpad w n) \<noteq> CHR ''/''"
    by auto
qed

lemma path_join2_plain:
  assumes "b \<noteq> []" and "hd b \<noteq> CHR ''/''" and "path \<noteq> []" and "last path \<noteq> CHR ''/''"
  shows "path_join2 path b = path @ ''/'' @ b"
  using assms by (simp add: path_join2_def)

text \<open>The bucket's directory and file, and the first character of each kind of path.\<close>

lemma bucket_dir_eq:
  "bucket_dir e = ''market_data/NIFTY_FUT/'' @ strftime_Y_m_d (now_today e)"
proof -
  let ?t = "strftime_Y_m_d (now_today e)"
  have t: "?t \<noteq> []" "hd ?t \<noteq> CHR ''/''"
    using zpad_no_slash(1,2) [of 4 "year (now_today e)"]
    by (simp_all add: strftime_Y_m_d_def)
  have 1: "path_join2 BASE_DIR INSTRUMENT = ''market_data/NIFTY_FUT''"
    by (simp add: path_join2_def BASE_DIR_def INSTRUMENT_def)
  have "path_join2 ''market_data/NIFTY_FUT'' ?t = ''market_data/NIFTY_FUT'' @ ''/'' @ ?t"
    by (rule path_join2_plain [OF t]) simp_all
  with 1 show ?thesis by (simp add: bucket_dir_def os_path_join_def)
qed

lemma bucket_file_eq:
  "bucket_file e =
     ''market_data/NIFTY_FUT/'' @ strftime_Y_m_d (now_today e) @ ''/'' @
     strftime_H_M (now_slot e) @ ''.parquet''"
proof -
  let ?d = "bucket_dir e" and ?f = "strftime_H_M (now_slot e) @ ''.parquet''"
  have f: "?f \<noteq> []" "hd ?f \<noteq> CHR ''/''"
    using zpad_no_slash(1,2) [of 2 "hour (now_slot e)"]
    by (simp_all add: strftime_H_M_def)
  have d: "?d \<noteq> []" "last ?d \<noteq> CHR ''/''"
    using zpad_no_slash(1,3) [of 2 "day (now_today e)"]
    by (simp_all add: bucket_dir_eq strftime_Y_m_d_def)
  have "path_join2 ?d ?f = ?d @ ''/'' @ ?f" by (rule path_join2_plain [OF f d])
  then show ?thesis by (simp add: bucket_file_def os_path_join_def bucket_dir_eq)
qed

lemma final_path_not_bucket: "final_path e \<noteq> bucket_file e'"
proof
  assume "final_path e = bucket_file e'"
  then have "hd (final_path e) = hd (bucket_file e')" by simp
  then show False by (simp add: final_path_def INSTRUMENT_def bucket_file_eq)
qed

section \<open>Cancellation\<close>

lemma final_flush_ok:
  assumes "\<not> final_write_fails e" and "\<not> final_close_fails e"
  shows "final_flush e s =
    (CancelledError,
     s\<lparr>fs_log := fs_log s @
        (if last_flush_idx s < length (linear_view (ring s))
         then [WriteFile (final_path e) (drop (last_flush_idx s) (linear_view (ring s)))]
         else []) @
        (case parquet_writer s of None \<Rightarrow> [] | Some w \<Rightarrow> [CloseWriter w])\<rparr>)"
  using assms
  by (auto simp: final_flush_def close_and_raise_def Let_def split: option.splits)

text \<open>
  Claim C4, as amended. Cancel a run of a recorder of capacity \<open>C \<ge> 1\<close> after any
  steps \<open>cs\<close> that raised nothing, with a final write and a close that succeed. Then
  \<open>run\<close> writes the rows of the view beyond \<open>last_flush_idx\<close>, if there are any, in one
  file at \<open>final_path\<close>, which is the path of no bucket; then closes the open writer, if
  there is one; then raises \<open>CancelledError\<close>. Everything written by the run, the final
  file included, is a subsequence of the appended rows: no row is written twice. It is
  all the appended rows when at most \<open>C\<close> rows were appended. Every writer that was
  opened has been closed once.
\<close>

theorem final_flush_on_cancel:
  assumes pos: "0 < C" and run: "run_ops cs (MarketRecorder_init C g) = (None, s)"
    and ok: "\<not> final_write_fails e" "\<not> final_close_fails e"
  shows "run cs e (MarketRecorder_init C g) =
    (CancelledError,
     s\<lparr>fs_log := fs_log s @
        (if last_flush_idx s < length (linear_view (ring s))
         then [WriteFile (final_path e) (drop (last_flush_idx s) (linear_view (ring s)))]
         else []) @
        (case parquet_writer s of None \<Rightarrow> [] | Some w \<Rightarrow> [CloseWriter w])\<rparr>) \<and>
    final_path e \<noteq> bucket_file e' \<and>
    subseq (written (fs_log (snd (run cs e (MarketRecorder_init C g))))) (appended cs) \<and>
    (length (appended cs) \<le> C \<longrightarrow>
       written (fs_log (snd (run cs e (MarketRecorder_init C g)))) = appended cs) \<and>
    replay None (fs_log (snd (run cs e (MarketRecorder_init C g)))) = Some None"
proof -
  let ?i = "MarketRecorder_init C g :: 'a MarketRecorder"
  let ?c = "last_flush_idx s" and ?v = "linear_view (ring s)"
  let ?k = "length (appended cs) - (length ?v - ?c)"
  have r: "run cs e ?i =
    (CancelledError,
     s\<lparr>fs_log := fs_log s @
        (if ?c < length ?v then [WriteFile (final_path e) (drop ?c ?v)] else []) @
        (case parquet_writer s of None \<Rightarrow> [] | Some w \<Rightarrow> [CloseWriter w])\<rparr>)"
    using run final_flush_ok [OF ok, of s] by (simp add: run_def)
  have wr: "written (fs_log (snd (run cs e ?i))) = written (fs_log s) @ drop ?c ?v"
    unfolding r by (simp add: written_append split: option.splits)
  have fl0: "flushed_inv [] ?i"
    by (simp add: flushed_inv_def MarketRecorder_init_def)
  from run_ops_flushed [OF run ring_inv_init [OF pos] fl0]
  have inv: "ring_inv C (appended cs) s" and fl: "flushed_inv (appended cs) s"
    by simp_all
  have pend: "drop ?c ?v = drop ?k (appended cs)" by (rule pending_rows [OF inv])
  from fl have "subseq (written (fs_log s) @ drop ?k (appended cs))
      (take ?k (appended cs) @ drop ?k (appended cs))"
    unfolding flushed_inv_def by (rule list_emb_append_mono) simp
  then have sub: "subseq (written (fs_log (snd (run cs e ?i)))) (appended cs)"
    unfolding wr pend by simp
  have ex: "written (fs_log (snd (run cs e ?i))) = appended cs"
    if le: "length (appended cs) \<le> C"
  proof -
    have w0: "written (fs_log ?i) = take (last_flush_idx ?i) []"
      by (simp add: MarketRecorder_init_def)
    from le have le': "length ([] @ appended cs) \<le> C" by simp
    from run_ops_exact [OF run ring_inv_init [OF pos] w0 le']
    have w: "written (fs_log s) = take ?c (appended cs)" by simp
    from inv le have "?v = appended cs" by (simp add: ring_inv_def)
    with w show ?thesis unfolding wr by simp
  qed
  have r0: "replay None (fs_log ?i) = Some (parquet_writer ?i)"
    by (simp add: MarketRecorder_init_def)
  have rp: "replay None (fs_log s) = Some (parquet_writer s)"
    by (rule run_ops_replay [OF run writer_inv_init r0])
  have cl: "replay None (fs_log (snd (run cs e ?i))) = Some None"
    unfolding r using rp by (simp add: replay_append split: option.splits)
  from r final_path_not_bucket sub ex cl show ?thesis by blast
qed

theorem final_flush_on_cancel_witness:
  "(0::nat) < 3 \<and>
   run_ops [Append 1, Tick (tick_at 9 15), Append 2] (MarketRecorder_init 3 zeros) =
     (None, exec_ops [Append 1, Tick (tick_at 9 15), Append 2] (MarketRecorder_init 3 zeros)) \<and>
   \<not> final_write_fails (stop_at 9 16) \<and> \<not> final_close_fails (stop_at 9 16) \<and>
   length (appended [Append 1, Tick (tick_at 9 15), Append 2 :: nat op]) \<le> 3 \<and>
   written (fs_log (snd (run [Append 1, Tick (tick_at 9 15), Append 2] (stop_at 9 16)
     (MarketRecorder_init 3 zeros)))) = [1, 2] \<and>
   replay None (fs_log (snd (run [Append 1, Tick (tick_at 9 15), Append 2] (stop_at 9 16)
     (MarketRecorder_init 3 zeros)))) = Some None"
proof -
  let ?cs = "[Append 1, Tick (tick_at 9 15), Append 2 :: nat op]"
  have pos: "(0::nat) < 3" by simp
  have run: "run_ops ?cs (MarketRecorder_init 3 zeros) =
      (None, exec_ops ?cs (MarketRecorder_init 3 zeros))"
    by (simp add: run_defs)
  have ok: "\<not> final_write_fails (stop_at 9 16)" "\<not> final_close_fails (stop_at 9 16)"
    by (simp_all add: stop_at_def)
  have le: "length (appended ?cs) \<le> 3" by simp
  have ap: "appended ?cs = [1, 2]" by simp
  from final_flush_on_cancel [OF pos run ok] le
  have "written (fs_log (snd (run ?cs (stop_at 9 16) (MarketRecorder_init 3 zeros)))) =
      appended ?cs"
    and "replay None (fs_log (snd (run ?cs (stop_at 9 16) (MarketRecorder_init 3 zeros)))) =
      Some None"
    by blast+
  with pos run ok le ap show ?thesis by (simp del: exec_ops.simps run_ops.simps)
qed

text \<open>
  Claim C4 as stated fails. With capacity 3, rows 1 and 2 are appended and flushed,
  rows 3 and 4 are appended, and the run is cancelled. Row 3 was appended before the
  cancellation and never flushed, yet the final file holds row 4 alone: the view is
  \<open>[2, 3, 4]\<close> and the cursor 2.
\<close>

theorem final_flush_counterexample:
  "appended [Append 1, Append 2, Tick (tick_at 9 15), Append 3, Append 4 :: nat op] =
     [1, 2, 3, 4] \<and>
   run [Append 1, Append 2, Tick (tick_at 9 15), Append 3, Append 4] (stop_at 9 16)
     (MarketRecorder_init 3 zeros) =
   (CancelledError,
    \<lparr>ring = \<lparr>buffer = [4, 2, 3], size_rb = 3, write_idx = 1, full = True\<rparr>,
     last_flush_idx = 2,
     parquet_writer = Some ''market_data/NIFTY_FUT/2024-03-07/09_15.parquet'',
     current_file_path = Some ''market_data/NIFTY_FUT/2024-03-07/09_15.parquet'',
     fs_log =
       [Makedirs ''market_data/NIFTY_FUT/2024-03-07'',
        OpenWriter ''market_data/NIFTY_FUT/2024-03-07/09_15.parquet'',
        WriteTable ''market_data/NIFTY_FUT/2024-03-07/09_15.parquet'' [1, 2],
        WriteFile ''NIFTY_FUT_20240307_0916_FINAL.parquet'' [4],
        CloseWriter ''market_data/NIFTY_FUT/2024-03-07/09_15.parquet''],
     clock = 0\<rparr>)"
  by (simp add: run_defs)

section \<open>Properties of the ingest loop\<close>

lemma append_tuple_ok:
  assumes "rb_inv C rb" and "in_int64 ts" and "conv p = Inr f" and "in_int32 q"
  shows "\<exists>rb'. append_tuple conv (ts, sid, side, p, q) rb = (None, rb') \<and>
           append_rb (ts, take 20 sid, take 3 side, f, q) rb = Inr rb' \<and> rb_inv C rb'"
proof -
  from append_rb_ok [OF assms(1), of "(ts, take 20 sid, take 3 side, f, q)"] obtain rb' where
    rb': "append_rb (ts, take 20 sid, take 3 side, f, q) rb = Inr rb'" "rb_inv C rb'"
    by blast
  from assms(1) have w: "write_idx rb < length (buffer rb)" by (simp add: rb_inv_def)
  obtain ts0 sid0 side0 p0 q0 where slot: "buffer rb ! write_idx rb = (ts0, sid0, side0, p0, q0)"
    by (cases "buffer rb ! write_idx rb" rule: prod_cases5)
  have "append_tuple conv (ts, sid, side, p, q) rb = (None, rb')"
    using w slot assms(2,3,4) rb'(1) by (simp add: append_tuple_def)
  with rb' show ?thesis by blast
qed

lemma append_levels_ok:
  assumes "u_type u = Some side" and "u_security_id u = Some sid"
    and "rb_inv C (ring s)"
    and "\<forall>(p, q) \<in> set pqs. conv p = Inr (fl p) \<and> in_int32 q"
    and "\<forall>i < length pqs. in_int64 (time_ns (clock s + i))"
  shows "\<exists>s'. append_levels conv time_ns u
             (map (\<lambda>(p, q). \<lparr>price = Some p, quantity = Some q\<rparr>) pqs) s = (None, s') \<and>
           appends (map (\<lambda>(i, (p, q)). (time_ns i, take 20 (py_str sid), take 3 side, fl p, q))
                     (enumerate (clock s) pqs)) (ring s) = Inr (ring s') \<and>
           s' = s\<lparr>ring := ring s', clock := clock s + length pqs\<rparr>"
  using assms(3,4,5)
proof (induction pqs arbitrary: s)
  case Nil
  then show ?case by simp
next
  case (Cons pq pqs)
  obtain p q where pq: "pq = (p, q)" by (cases pq)
  from Cons.prems(2) pq have fit: "conv p = Inr (fl p)" "in_int32 q"
    and fits: "\<forall>(p, q) \<in> set pqs. conv p = Inr (fl p) \<and> in_int32 q"
    by auto
  from Cons.prems(3) have t0: "in_int64 (time_ns (clock s))" by force
  have ts: "\<forall>i < length pqs. in_int64 (time_ns (clock s + 1 + i))"
  proof (intro allI impI)
    fix i assume "i < length pqs"
    then have "Suc i < length (pq # pqs)" by simp
    with Cons.prems(3) have "in_int64 (time_ns (clock s + Suc i))" by blast
    then show "in_int64 (time_ns (clock s + 1 + i))" by simp
  qed
  let ?row = "(time_ns (clock s), take 20 (py_str sid), take 3 side, fl p, q)"
  from append_tuple_ok [where conv = conv and p = p and f = "fl p" and sid = "py_str sid"
      and side = side, OF Cons.prems(1) t0 fit] obtain rb where
    rb: "append_tuple conv (time_ns (clock s), py_str sid, side, p, q) (ring s) = (None, rb)"
        "append_rb ?row (ring s) = Inr rb" "rb_inv C rb"
    by blast
  let ?s1 = "s\<lparr>clock := clock s + 1, ring := rb\<rparr>"
  have inv1: "rb_inv C (ring ?s1)" using rb(3) by simp
  have ts1: "\<forall>i < length pqs. in_int64 (time_ns (clock ?s1 + i))" using ts by simp
  from Cons.IH [OF inv1 fits ts1] obtain s' where
    s': "append_levels conv time_ns u
           (map (\<lambda>(p, q). \<lparr>price = Some p, quantity = Some q\<rparr>) pqs) ?s1 = (None, s')"
        "appends (map (\<lambda>(i, (p, q)). (time_ns i, take 20 (py_str sid), take 3 side, fl p, q))
                     (enumerate (clock ?s1) pqs)) (ring ?s1) = Inr (ring s')"
        "s' = ?s1\<lparr>ring := ring s', clock := clock ?s1 + length pqs\<rparr>"
    by blast
  have 1: "append_levels conv time_ns u
      (map (\<lambda>(p, q). \<lparr>price = Some p, quantity = Some q\<rparr>) (pq # pqs)) s = (None, s')"
    using assms(1,2) rb(1) s'(1) by (simp add: pq)
  have 2: "appends (map (\<lambda>(i, (p, q)). (time_ns i, take 20 (py_str sid), take 3 side, fl p, q))
      (enumerate (clock s) (pq # pqs))) (ring s) = Inr (ring s')"
    using rb(2) s'(2) by (simp add: pq)
  have 3: "s' = s\<lparr>ring := ring s', clock := clock s + length (pq # pqs)\<rparr>"
    by (subst s'(3)) simp
  from 1 2 3 show ?case by blast
qed

text \<open>
  Claim C7, as amended. Take an update whose type is \<open>Bid\<close> or \<open>Ask\<close>, with an
  instrument id and \<open>k\<close> depth levels that each have a price and a quantity, and a ring
  buffer of capacity \<open>C \<ge> 1\<close>; let the values fit the columns of the array: every
  quantity is an int32, every price converts to a double, every clock reading is an
  int64. Processing the update raises nothing and leaves the ring as \<open>k\<close> appends
  leave it, one row per level in level order. The row of level \<open>i\<close> holds the clock
  reading taken when that level was processed, the first 20 characters of \<open>str\<close> of the
  update's instrument id (all of it when it has no more), the update's type as side,
  the level's price as a double, and the level's quantity. Nothing else of the
  recorder changes. (\<open>conv\<close> is the conversion of a price to a double and \<open>fl p\<close>
  the double it gives for \<open>p\<close>.)
\<close>

theorem ingest_appends_one_row_per_level:
  assumes "u_type u = Some side" and "side = ''Bid'' \<or> side = ''Ask''"
    and "u_security_id u = Some sid"
    and "u_depth u = Some (map (\<lambda>(p, q). \<lparr>price = Some p, quantity = Some q\<rparr>) pqs)"
    and "rb_inv C (ring s)"
    and "\<forall>(p, q) \<in> set pqs. conv p = Inr (fl p) \<and> in_int32 q"
    and "\<forall>i < length pqs. in_int64 (time_ns (clock s + i))"
  shows "\<exists>s'. process_update conv time_ns u s = (None, s') \<and>
           appends (map (\<lambda>(i, (p, q)). (time_ns i, take 20 (py_str sid), side, fl p, q))
                     (enumerate (clock s) pqs)) (ring s) = Inr (ring s') \<and>
           length (map (\<lambda>(i, (p, q)). (time_ns i, take 20 (py_str sid), side, fl p, q))
                     (enumerate (clock s) pqs)) = length pqs \<and>
           s' = s\<lparr>ring := ring s', clock := clock s + length pqs\<rparr> \<and>
           linear_view (ring s') =
             drop (length (linear_view (ring s)) + length pqs - C)
               (linear_view (ring s) @
                map (\<lambda>(i, (p, q)). (time_ns i, take 20 (py_str sid), side, fl p, q))
                  (enumerate (clock s) pqs)) \<and>
           (length (py_str sid) \<le> 20 \<longrightarrow> take 20 (py_str sid) = py_str sid)"
proof -
  let ?rows = "map (\<lambda>(i, (p, q)). (time_ns i, take 20 (py_str sid), side, fl p, q))
                 (enumerate (clock s) pqs)"
  from assms(2) have side3: "take 3 side = side" by auto
  from append_levels_ok [OF assms(1,3,5,6,7)] obtain s' where
    s': "append_levels conv time_ns u
           (map (\<lambda>(p, q). \<lparr>price = Some p, quantity = Some q\<rparr>) pqs) s = (None, s')"
        "appends ?rows (ring s) = Inr (ring s')"
        "s' = s\<lparr>ring := ring s', clock := clock s + length pqs\<rparr>"
    unfolding side3 by blast
  have p: "process_update conv time_ns u s = (None, s')"
    using assms(1,2,4) s'(1) by (auto simp: process_update_def)
  have v: "linear_view (ring s') =
      drop (length (linear_view (ring s)) + length ?rows - C) (linear_view (ring s) @ ?rows)"
    by (rule linear_view_appends [OF assms(5) s'(2)])
  from p s'(2,3) v show ?thesis by auto
qed

theorem ingest_appends_one_row_per_level_witness:
  "u_type ask_update = Some ''Ask'' \<and>
   u_security_id ask_update = Some (PyInt 53216) \<and>
   u_depth ask_update =
     Some (map (\<lambda>(p, q). \<lparr>price = Some p, quantity = Some q\<rparr>) [(101, 7), (102, 9)]) \<and>
   rb_inv 3 (ring (MarketRecorder_init 3 blank_rows)) \<and>
   whole_price 101 = Inr 101 \<and> in_int32 7 \<and> whole_price 102 = Inr 102 \<and> in_int32 9 \<and>
   in_int64 (example_clock 0) \<and> in_int64 (example_clock 1) \<and>
   length (py_str (PyInt 53216)) \<le> 20 \<and>
   linear_view (ring (snd (process_update whole_price example_clock ask_update
     (MarketRecorder_init 3 blank_rows)))) =
   [(1000, ''53216'', ''Ask'', 101, 7), (1001, ''53216'', ''Ask'', 102, 9)]"
proof -
  let ?a = "MarketRecorder_init 3 blank_rows"
  have t: "u_type ask_update = Some ''Ask''" and side: "''Ask'' = ''Bid'' \<or> ''Ask'' = ''Ask''"
    and sid: "u_security_id ask_update = Some (PyInt 53216)"
    and d: "u_depth ask_update =
      Some (map (\<lambda>(p, q). \<lparr>price = Some p, quantity = Some q\<rparr>) [(101, 7), (102, 9)])"
    by (simp_all add: ask_update_def)
  have inv: "rb_inv 3 (ring ?a)"
    by (simp add: MarketRecorder_init_def rb_inv_init)
  have v0: "linear_view (ring ?a) = []" by (simp add: MarketRecorder_init_def linear_view_init)
  have c0: "clock ?a = 0" by (simp add: MarketRecorder_init_def)
  have str: "py_str (PyInt 53216) = ''53216''"
    by (simp add: py_str_def dec.simps digit_def)
  have fit1: "whole_price 101 = Inr 101" "in_int32 7" "whole_price 102 = Inr 102" "in_int32 9"
    by (simp_all add: whole_price_def in_int32_def)
  have fit: "\<forall>(p, q) \<in> set [(101, 7), (102, 9)]. whole_price p = Inr (id p) \<and> in_int32 q"
    using fit1 by simp
  have ck1: "in_int64 (example_clock 0)" "in_int64 (example_clock 1)"
    by (simp_all add: example_clock_def in_int64_def)
  have ck: "\<forall>i < length [(101, 7), (102, 9 :: int) :: nat \<times> int].
      in_int64 (example_clock (clock ?a + i))"
    unfolding c0 using ck1 by (auto simp: less_Suc_eq)
  have len: "length (py_str (PyInt 53216)) \<le> 20" unfolding str by simp
  from ingest_appends_one_row_per_level [OF t side sid d inv fit ck]
  obtain s' where "process_update whole_price example_clock ask_update ?a = (None, s')"
    and "linear_view (ring s') =
      drop (length (linear_view (ring ?a)) + length [(101, 7), (102, 9 :: int) :: nat \<times> int] - 3)
        (linear_view (ring ?a) @
         map (\<lambda>(i, (p, q)). (example_clock i, take 20 (py_str (PyInt 53216)), ''Ask'', id p, q))
           (enumerate (clock ?a) [(101, 7), (102, 9)]))"
    by blast
  then have "linear_view (ring (snd (process_update whole_price example_clock ask_update ?a))) =
      [(1000, ''53216'', ''Ask'', 101, 7), (1001, ''53216'', ''Ask'', 102, 9)]"
    unfolding v0 c0 str by (simp add: example_clock_def)
  with t sid d inv fit1 ck1 len show ?thesis by blast
qed

text \<open>
  Claim C7 as stated fails. An update whose instrument id has 24 characters leaves a
  row that holds the first 20 of them, not the id; an update with one level whose
  quantity is \<open>2^31\<close> raises \<open>OverflowError\<close> and no row is appended.
\<close>

theorem ingest_counterexample:
  "u_security_id long_id_update = Some (PyStr ''NIFTY-FUT-2024-03-28-XYZ'') \<and>
   fst (process_update whole_price example_clock long_id_update
     (MarketRecorder_init 3 blank_rows)) = None \<and>
   linear_view (ring (snd (process_update whole_price example_clock long_id_update
     (MarketRecorder_init 3 blank_rows)))) =
   [(1000, ''NIFTY-FUT-2024-03-28'', ''Ask'', 101, 7)] \<and>
   fst (process_update whole_price example_clock big_quantity_update
     (MarketRecorder_init 3 blank_rows)) = Some OverflowError \<and>
   linear_view (ring (snd (process_update whole_price example_clock big_quantity_update
     (MarketRecorder_init 3 blank_rows)))) = []"
  by (simp add: process_update_def long_id_update_def big_quantity_update_def
      append_tuple_def whole_price_def example_clock_def blank_rows_def py_str_def
      in_int64_def in_int32_def run_defs)

text \<open>
  Claim C8. An update whose type is neither \<open>Bid\<close> nor \<open>Ask\<close> is discarded: processing
  it raises nothing and returns the recorder as it was, and the loop over the message
  goes on with the payload that remains after it.
\<close>

theorem other_kinds_are_discarded:
  assumes "u_type u = Some t" and "t \<noteq> ''Bid''" and "t \<noteq> ''Ask''"
  shows "process_update conv time_ns u s = (None, s) \<and>
         (raw \<noteq> [] \<and> process_data raw = Some u \<longrightarrow>
            drain process_data conv time_ns (Some raw) s =
            drain process_data conv time_ns (u_remaining_data u) s)"
proof -
  have p: "process_update conv time_ns u s = (None, s)"
    using assms by (simp add: process_update_def)
  have nf: "\<not> falsy_update u" using assms(1) by (simp add: falsy_update_def)
  have "drain process_data conv time_ns (Some raw) s =
      drain process_data conv time_ns (u_remaining_data u) s"
    if "raw \<noteq> []" and "process_data raw = Some u"
    using that p nf by (subst drain.simps) simp
  with p show ?thesis by blast
qed

theorem other_kinds_are_discarded_witness:
  "u_type ticker_update = Some ''Ticker'' \<and> ''Ticker'' \<noteq> ''Bid'' \<and> ''Ticker'' \<noteq> ''Ask'' \<and>
   [1, 2] \<noteq> ([] :: bytes) \<and> example_feed [1, 2] = Some ticker_update \<and>
   process_update whole_price example_clock ticker_update (MarketRecorder_init 3 blank_rows) =
     (None, MarketRecorder_init 3 blank_rows) \<and>
   drain example_feed whole_price example_clock (Some [1, 2]) (MarketRecorder_init 3 blank_rows) =
   drain example_feed whole_price example_clock (Some [2]) (MarketRecorder_init 3 blank_rows)"
proof -
  have t: "u_type ticker_update = Some ''Ticker''" by (simp add: ticker_update_def)
  have n1: "''Ticker'' \<noteq> ''Bid''" and n2: "''Ticker'' \<noteq> ''Ask''" by simp_all
  have raw: "[1, 2] \<noteq> ([] :: bytes)" by simp
  have f: "example_feed [1, 2] = Some ticker_update" by (simp add: example_feed_def)
  have r: "u_remaining_data ticker_update = Some [2]" by (simp add: ticker_update_def)
  from other_kinds_are_discarded [OF t n1 n2, of whole_price example_clock _ "[1, 2]" example_feed]
    raw f r t n1 n2
  show ?thesis by auto
qed

text \<open>
  The loop over a message ends whenever the parser hands back less than it was given:
  each round either stops or goes on with a shorter payload.
\<close>

lemma drain_returns:
  assumes shrink: "\<And>raw u r. process_data raw = Some u \<Longrightarrow> u_remaining_data u = Some r \<Longrightarrow>
      length r < length raw"
  shows "\<exists>res. drain process_data conv time_ns remaining s = Some res"
proof (induction "case remaining of None \<Rightarrow> 0 | Some raw \<Rightarrow> length raw"
    arbitrary: remaining s rule: less_induct)
  case less
  show ?case
  proof (cases remaining)
    case None
    then show ?thesis by (subst drain.simps) simp
  next
    case rem: (Some raw)
    show ?thesis
    proof (cases "raw = []")
      case True
      with rem show ?thesis by (subst drain.simps) simp
    next
      case ne: False
      show ?thesis
      proof (cases "process_data raw")
        case None
        with rem ne show ?thesis by (subst drain.simps) simp
      next
        case pd: (Some u)
        show ?thesis
        proof (cases "falsy_update u")
          case True
          with rem ne pd show ?thesis by (subst drain.simps) simp
        next
          case nf: False
          obtain x s' where pu: "process_update conv time_ns u s = (x, s')"
            by (cases "process_update conv time_ns u s")
          show ?thesis
          proof (cases x)
            case (Some y)
            with rem ne pd nf pu show ?thesis by (subst drain.simps) simp
          next
            case None
            have "(case u_remaining_data u of None \<Rightarrow> 0 | Some r \<Rightarrow> length r) <
                (case remaining of None \<Rightarrow> 0 | Some raw \<Rightarrow> length raw)"
              using rem ne shrink [OF pd] by (cases "u_remaining_data u") simp_all
            from less [OF this, of s'] obtain res where
              "drain process_data conv time_ns (u_remaining_data u) s' = Some res" by blast
            with rem ne pd nf pu None show ?thesis by (subst drain.simps) simp
          qed
        qed
      qed
    qed
  qed
qed

text \<open>The example message is drained to the end: the ticker is skipped, the asks recorded.\<close>

lemma drain_example:
  "\<exists>s'. drain example_feed whole_price example_clock (Some [1, 2]) (MarketRecorder_init 3 blank_rows) =
          Some (None, s') \<and>
        linear_view (ring s') =
          [(1000, ''53216'', ''Ask'', 101, 7), (1001, ''53216'', ''Ask'', 102, 9)]"
proof -
  let ?s = "MarketRecorder_init 3 blank_rows"
  obtain x s' where pu: "process_update whole_price example_clock ask_update ?s = (x, s')"
    by (cases "process_update whole_price example_clock ask_update ?s")
  have x: "x = None" and v: "linear_view (ring s') =
      [(1000, ''53216'', ''Ask'', 101, 7), (1001, ''53216'', ''Ask'', 102, 9)]"
    using pu
    by (auto simp: process_update_def ask_update_def run_defs py_str_def example_clock_def
        blank_rows_def append_tuple_def whole_price_def in_int64_def in_int32_def)
  have 1: "drain example_feed whole_price example_clock (Some [1, 2]) ?s =
      drain example_feed whole_price example_clock (Some [2]) ?s"
    by (subst drain.simps)
      (simp add: example_feed_def ticker_update_def falsy_update_def process_update_def)
  have 2: "drain example_feed whole_price example_clock (Some [2]) ?s =
      drain example_feed whole_price example_clock None s'"
    using pu x
    by (subst drain.simps) (simp add: example_feed_def ask_update_def falsy_update_def)
  have 3: "drain example_feed whole_price example_clock None s' = Some (None, s')"
    by (subst drain.simps) simp
  from 1 2 3 v show ?thesis by simp
qed

end
